theory Spec2Isabelle
  imports Complex_Main "HOL-Library.Finite_Map" "HOL-Library.AList" "HOL-Library.Multiset"
    "HOL-Library.Signed_Division"
begin

section \<open>Configuration (package config)\<close>

text \<open>
  A \<^verbatim>\<open>config.Duration\<close> is an \<^verbatim>\<open>int64\<close> count of nanoseconds. The fields of
  \<^verbatim>\<open>Process\<close> that the process package never reads in the code modelled here
  (description, working directory, environment) are left out.
\<close>

record RetryConfig =
  Enabled :: bool
  MaxAttempts :: int
  InitialBackoff :: int
  MaxBackoff :: int
  BackoffMultiplier :: real

record Process =
  Command :: string
  DependsOn :: "string list"
  Retry :: RetryConfig

text \<open>
  \<^verbatim>\<open>Config.Processes\<close> is a Go map from names to process definitions. The code only
  ranges over it, in an order Go leaves unspecified; the model holds its entries as a list
  in the order the \<^verbatim>\<open>range\<close> statement visits them. The keys of a map are distinct.
\<close>

record Config =
  Processes :: "(string \<times> Process) list"

section \<open>Retry policy (retry.go)\<close>

definition shouldRetry :: "int \<Rightarrow> RetryConfig \<Rightarrow> bool" where
  "shouldRetry attempt cfg =
     (if \<not> Enabled cfg then False
      else if MaxAttempts cfg = 0 then True
      else attempt < MaxAttempts cfg)"

text \<open>
  \<^verbatim>\<open>nextBackoff\<close> computes in \<^verbatim>\<open>float64\<close>. A finite \<^verbatim>\<open>float64\<close> is taken as the
  real number it denotes, and every operation of the source as the exact operation
  followed by the rounding of the binary64 format: \<open>fl\<close> rounds a real to the nearest
  number with a significand of 53 bits, a tie going to the even significand. The
  operations are rounded one by one, in the order in which the source writes them, as the
  Go compiler does on amd64; the language lets an implementation fuse a product and a sum
  into one rounding, which is not modelled. The range of exponents of the format is not
  modelled either. At its lower end: the backoffs of a policy are at least one nanosecond,
  its multiplier is at least 1 and the draw is a multiple of \<open>2^-53\<close>, so that no value of
  \<^verbatim>\<open>nextBackoff\<close> is small enough to be subnormal, unless \<^verbatim>\<open>math.Pow\<close> is wrong by
  hundreds of orders of magnitude. At its upper end: a product too large
  for the format, which the code holds as \<^verbatim>\<open>+Inf\<close>, is above \<^verbatim>\<open>maxBackoff\<close> in the code and
  in the model alike and is replaced by it. A multiplier that is infinite or not a number
  is not modelled.
\<close>

definition round_even :: "real \<Rightarrow> int" where
  "round_even q =
     (let f = \<lfloor>q\<rfloor> in
      if q - of_int f < 1 / 2 then f
      else if 1 / 2 < q - of_int f then f + 1
      else if even f then f else f + 1)"

definition fl :: "real \<Rightarrow> real" where
  "fl x =
     (if x = 0 then 0
      else
        let e = \<lfloor>log 2 \<bar>x\<bar>\<rfloor>
        in of_int (round_even (x * 2 powr (52 - of_int e))) * 2 powr (of_int e - 52))"

text \<open>
  \<^verbatim>\<open>math.Pow\<close> belongs to the Go library. The model has the special cases that its
  documentation fixes, \<^verbatim>\<open>Pow(x, 0) = 1\<close>, \<^verbatim>\<open>Pow(1, y) = 1\<close> and \<^verbatim>\<open>Pow(x, 1) = x\<close>, and
  takes its value in every other case from the parameter \<open>pw\<close>. The attempt is the retry
  count of the process, which starts at 0 and is only ever incremented: it is a natural
  number. \<open>pw\<close> receives it as it is: the conversion \<^verbatim>\<open>float64(attempt)\<close> is exact below
  \<open>2^53\<close>.
\<close>

definition Pow :: "(real \<Rightarrow> nat \<Rightarrow> real) \<Rightarrow> real \<Rightarrow> nat \<Rightarrow> real" where
  "Pow pw x y = (if y = 0 \<or> x = 1 then 1 else if y = 1 then x else pw x y)"

text \<open>
  The conversion \<^verbatim>\<open>time.Duration(base)\<close> of a \<^verbatim>\<open>float64\<close> to \<^verbatim>\<open>int64\<close> discards the
  fraction (truncation towards zero). When the truncated value does not fit \<^verbatim>\<open>int64\<close> the
  language leaves the result to the implementation: the model answers \<open>None\<close>.
\<close>

definition toDuration :: "real \<Rightarrow> int option" where
  "toDuration x =
     (let t = (if 0 \<le> x then \<lfloor>x\<rfloor> else \<lceil>x\<rceil>)
      in if - (2 ^ 63) \<le> t \<and> t < 2 ^ 63 then Some t else None)"

text \<open>
  The draw \<^verbatim>\<open>rand.Float64()\<close>, a \<^verbatim>\<open>float64\<close> in \<open>[0, 1)\<close>, is the argument \<open>rnd\<close>. The
  constant \<^verbatim>\<open>0.1\<close> of the source is the \<^verbatim>\<open>float64\<close> nearest to one tenth.
\<close>

definition nextBackoff :: "(real \<Rightarrow> nat \<Rightarrow> real) \<Rightarrow> nat \<Rightarrow> RetryConfig \<Rightarrow> real \<Rightarrow> int option" where
  "nextBackoff pw attempt cfg rnd =
     (let base0 = fl (fl (real_of_int (InitialBackoff cfg)) * Pow pw (BackoffMultiplier cfg) attempt);
          maxBackoff = fl (real_of_int (MaxBackoff cfg));
          base1 = (if base0 > maxBackoff then maxBackoff else base0);
          jitter = fl (base1 * fl (1 / 10));
          base2 = fl (fl (base1 - jitter) + fl (fl (rnd * 2) * jitter))
      in toDuration base2)"








section \<open>Process state (state.go) and managed process\<close>

datatype Status =
  StatusStopped | StatusStarting | StatusRunning | StatusFailed | StatusRetrying | StatusStopping

text \<open>
  A \<^verbatim>\<open>time.Time\<close> is modelled as a count of nanoseconds after the zero time
  \<^verbatim>\<open>time.Time{}\<close>, which is \<open>0\<close>.
\<close>

type_synonym time = int

record ProcessState =
  Name :: string
  Status :: Status
  PID :: int
  StartedAt :: time
  StoppedAt :: time
  RetryCount :: int
  NextRetryAt :: time
  LastError :: string
  ExitCode :: int

text \<open>
  Of a \<^verbatim>\<open>ManagedProcess\<close> the model keeps the name, the definition, the state and the
  child handle \<^verbatim>\<open>cmd\<close> (the pid of the last child spawned, if any). The mutex, the PTY
  descriptor, the log buffer reference and the \<^verbatim>\<open>done\<close> channel belong to the
  concurrent execution, which the sequential model leaves out.
\<close>

record ManagedProcess =
  mp_name :: string
  mp_config :: Process
  mp_state :: ProcessState
  mp_cmd :: "int option"

datatype error =
  AlreadyRunning string
  | SpawnError string string
  | UnknownProcess string
  | CycleDetected
  | Wrapped string error

definition NewManagedProcess :: "string \<Rightarrow> Process \<Rightarrow> ManagedProcess" where
  "NewManagedProcess name cfg =
     \<lparr>mp_name = name, mp_config = cfg,
      mp_state = \<lparr>Name = name, Status = StatusStopped, PID = 0, StartedAt = 0, StoppedAt = 0,
                  RetryCount = 0, NextRetryAt = 0, LastError = [], ExitCode = 0\<rparr>,
      mp_cmd = None\<rparr>"

text \<open>
  What the operating system answers to the spawn in \<^verbatim>\<open>Start\<close>: the child started
  under a PTY, or the PTY failed and the child started on pipes, or both attempts failed
  with an error message.
\<close>

datatype spawn_result = PtyStarted int | PipeStarted int | SpawnFailed string

text \<open>
  \<^verbatim>\<open>Start\<close> returns its error (if any) beside the process, which it has mutated in
  either case. \<open>t\<close> is the reading of \<^verbatim>\<open>time.Now()\<close>.
\<close>

definition Start :: "spawn_result \<Rightarrow> time \<Rightarrow> ManagedProcess \<Rightarrow> error option \<times> ManagedProcess" where
  "Start spawn t p =
     (if Status (mp_state p) = StatusRunning then (Some (AlreadyRunning (mp_name p)), p)
      else
        let p1 = p\<lparr>mp_state := (mp_state p)\<lparr>Status := StatusStarting\<rparr>\<rparr> in
        case spawn of
          SpawnFailed msg \<Rightarrow>
            (Some (SpawnError (mp_name p) msg),
             p1\<lparr>mp_state := (mp_state p1)\<lparr>Status := StatusFailed, LastError := msg\<rparr>\<rparr>)
        | PtyStarted pid \<Rightarrow>
            (None,
             p1\<lparr>mp_cmd := Some pid,
                mp_state := (mp_state p1)\<lparr>Status := StatusRunning, PID := pid, StartedAt := t,
                                          StoppedAt := 0, LastError := [], ExitCode := 0\<rparr>\<rparr>)
        | PipeStarted pid \<Rightarrow>
            (None,
             p1\<lparr>mp_cmd := Some pid,
                mp_state := (mp_state p1)\<lparr>Status := StatusRunning, PID := pid, StartedAt := t,
                                          StoppedAt := 0, LastError := [], ExitCode := 0\<rparr>\<rparr>))"

text \<open>
  What \<^verbatim>\<open>cmd.Wait\<close> reports of a child that has exited: no error, an
  \<^verbatim>\<open>*exec.ExitError\<close> with its exit code and text, or another error with its text.
\<close>

datatype wait_result = ExitedClean | ExitError int string | WaitError string

text \<open>\<^verbatim>\<open>waitForExit\<close>, from the return of \<^verbatim>\<open>cmd.Wait\<close> on.\<close>

definition waitForExit :: "wait_result \<Rightarrow> time \<Rightarrow> ManagedProcess \<Rightarrow> ManagedProcess" where
  "waitForExit werr t p =
     (let s = (mp_state p)\<lparr>StoppedAt := t, PID := 0\<rparr> in
      case werr of
        ExitedClean \<Rightarrow> p\<lparr>mp_state := s\<lparr>ExitCode := 0, Status := StatusStopped\<rparr>\<rparr>
      | ExitError code msg \<Rightarrow>
          (let s1 = s\<lparr>ExitCode := code\<rparr> in
           if Status s1 = StatusStopping then p\<lparr>mp_state := s1\<lparr>Status := StatusStopped\<rparr>\<rparr>
           else p\<lparr>mp_state := s1\<lparr>Status := StatusFailed, LastError := msg\<rparr>\<rparr>)
      | WaitError msg \<Rightarrow>
          (if Status s = StatusStopping then p\<lparr>mp_state := s\<lparr>Status := StatusStopped\<rparr>\<rparr>
           else p\<lparr>mp_state := s\<lparr>Status := StatusFailed, LastError := msg\<rparr>\<rparr>))"

text \<open>
  \<^verbatim>\<open>Stop\<close> marks the process as stopping, signals the process group of the child and
  blocks until \<^verbatim>\<open>done\<close> is closed, that is until \<^verbatim>\<open>waitForExit\<close> has run; in the
  sequential model the waiter runs at that point, with the outcome \<open>werr\<close> of the
  signalled child. \<^verbatim>\<open>Stop\<close> always returns \<^verbatim>\<open>nil\<close>.
\<close>

definition Stop :: "wait_result \<Rightarrow> time \<Rightarrow> ManagedProcess \<Rightarrow> ManagedProcess" where
  "Stop werr t p =
     (if Status (mp_state p) \<noteq> StatusRunning \<and> Status (mp_state p) \<noteq> StatusStarting then p
      else
        let p1 = p\<lparr>mp_state := (mp_state p)\<lparr>Status := StatusStopping\<rparr>\<rparr> in
        case mp_cmd p1 of
          None \<Rightarrow> p1
        | Some pid \<Rightarrow> waitForExit werr t p1)"

definition SetStatus :: "Status \<Rightarrow> ManagedProcess \<Rightarrow> ManagedProcess" where
  "SetStatus status p = p\<lparr>mp_state := (mp_state p)\<lparr>Status := status\<rparr>\<rparr>"

definition SetRetryState :: "int \<Rightarrow> time \<Rightarrow> ManagedProcess \<Rightarrow> ManagedProcess" where
  "SetRetryState n nextRetry p =
     p\<lparr>mp_state := (mp_state p)\<lparr>RetryCount := n, NextRetryAt := nextRetry\<rparr>\<rparr>"

definition SetError :: "string \<Rightarrow> ManagedProcess \<Rightarrow> ManagedProcess" where
  "SetError err p = p\<lparr>mp_state := (mp_state p)\<lparr>LastError := err\<rparr>\<rparr>"

definition ResetRetryCount :: "ManagedProcess \<Rightarrow> ManagedProcess" where
  "ResetRetryCount p = p\<lparr>mp_state := (mp_state p)\<lparr>RetryCount := 0, NextRetryAt := 0\<rparr>\<rparr>"


section \<open>Ring log buffer (package logging)\<close>

text \<open>
  The fields are Go \<^verbatim>\<open>int\<close>s; they stay far from the limits of the type, and the
  model takes them as integers. Go's \<^verbatim>\<open>%\<close> truncates towards zero: it is \<open>smod\<close>.
  The fields are private and every buffer comes from \<^verbatim>\<open>NewRingBuffer\<close>, so that
  \<open>rb_pos\<close> always indexes inside \<open>rb_lines\<close> (see \<open>rb_inv\<close> below).
\<close>

record RingBuffer =
  rb_lines :: "string list"
  rb_size :: int
  rb_pos :: int
  rb_count :: int

definition DefaultBufferSize :: int where
  "DefaultBufferSize = 1000"

definition NewRingBuffer :: "int \<Rightarrow> RingBuffer" where
  "NewRingBuffer size0 =
     (let sz = (if size0 \<le> 0 then DefaultBufferSize else size0)
      in \<lparr>rb_lines = replicate (nat sz) [], rb_size = sz, rb_pos = 0, rb_count = 0\<rparr>)"

definition WriteString :: "string \<Rightarrow> RingBuffer \<Rightarrow> RingBuffer" where
  "WriteString line rb =
     (let rb1 = rb\<lparr>rb_lines := (rb_lines rb)[nat (rb_pos rb) := line]\<rparr>;
          rb2 = rb1\<lparr>rb_pos := (rb_pos rb1 + 1) smod rb_size rb1\<rparr>
      in if rb_count rb2 < rb_size rb2 then rb2\<lparr>rb_count := rb_count rb2 + 1\<rparr> else rb2)"

definition Lines :: "int \<Rightarrow> RingBuffer \<Rightarrow> string list" where
  "Lines n0 rb =
     (let n = (if n0 \<le> 0 \<or> n0 > rb_count rb then rb_count rb else n0) in
      if n = 0 then []
      else
        let start = (rb_pos rb - n + rb_size rb) smod rb_size rb
        in map (\<lambda>i. rb_lines rb ! nat ((start + int i) smod rb_size rb)) [0..<nat n])"

definition All_rb :: "RingBuffer \<Rightarrow> string list" where
  "All_rb rb = Lines 0 rb"

definition Len :: "RingBuffer \<Rightarrow> int" where
  "Len rb = rb_count rb"

text \<open>
  The state of a buffer of capacity \<open>c\<close> into which the lines \<open>ws\<close> have been written, in
  this order: the line number \<open>i\<close> sits in slot \<open>i mod c\<close> as long as it is among the last
  \<open>c\<close>.
\<close>

definition rb_inv :: "int \<Rightarrow> string list \<Rightarrow> RingBuffer \<Rightarrow> bool" where
  "rb_inv c ws rb \<longleftrightarrow>
     rb_size rb = c \<and> length (rb_lines rb) = nat c
     \<and> rb_pos rb = int (length ws) mod c
     \<and> rb_count rb = min (int (length ws)) c
     \<and> (\<forall>i < length ws. int (length ws) - c \<le> int i \<longrightarrow> rb_lines rb ! nat (int i mod c) = ws ! i)"

section \<open>Dependency graph\<close>

text \<open>
  The three Go maps of the graph are finite maps. Reading a Go map at a missing key gives
  the zero value of the element type: \<open>at_list\<close> and \<open>at_bool\<close> read that way.
\<close>

record DependencyGraph =
  forward :: "(string, string list) fmap"
  reverse :: "(string, string list) fmap"
  nodes :: "(string, bool) fmap"

definition at_list :: "(string, 'a list) fmap \<Rightarrow> string \<Rightarrow> 'a list" where
  "at_list m k = (case fmlookup m k of None \<Rightarrow> [] | Some v \<Rightarrow> v)"

definition at_bool :: "(string, bool) fmap \<Rightarrow> string \<Rightarrow> bool" where
  "at_bool m k = (case fmlookup m k of None \<Rightarrow> False | Some v \<Rightarrow> v)"

text \<open>
  \<^verbatim>\<open>NewDependencyGraph\<close>: \<open>add_process\<close> is the body of the loop over
  \<^verbatim>\<open>cfg.Processes\<close>, \<open>add_reverse\<close> the body of the inner loop over the dependencies.
\<close>

definition add_reverse :: "string \<Rightarrow> string \<Rightarrow> DependencyGraph \<Rightarrow> DependencyGraph" where
  "add_reverse name dep g =
     g\<lparr>reverse := fmupd dep (at_list (reverse g) dep @ [name]) (reverse g)\<rparr>"

definition add_process :: "string \<times> Process \<Rightarrow> DependencyGraph \<Rightarrow> DependencyGraph" where
  "add_process np g =
     (let name = fst np; proc = snd np;
          g1 = g\<lparr>nodes := fmupd name True (nodes g)\<rparr>;
          g2 = g1\<lparr>forward := fmupd name (DependsOn proc) (forward g1)\<rparr>
      in fold (add_reverse name) (DependsOn proc) g2)"

definition NewDependencyGraph :: "Config \<Rightarrow> DependencyGraph" where
  "NewDependencyGraph cfg =
     fold add_process (Processes cfg) \<lparr>forward = fmempty, reverse = fmempty, nodes = fmempty\<rparr>"

text \<open>
  The three recursive closures of the source (\<^verbatim>\<open>collectDeps\<close> in \<^verbatim>\<open>StartOrder\<close>,
  \<^verbatim>\<open>walk\<close> in \<^verbatim>\<open>Dependents\<close> and in \<^verbatim>\<open>Dependencies\<close>) are one depth-first
  traversal: visit the names of a list in turn; a name already marked is skipped, another
  one is marked and the names next to it are visited before the rest of the list. \<open>walk\<close>
  is that traversal with the pending names on an explicit stack \<open>todo\<close>, which makes it
  tail recursive; the lemma \<open>walk_Cons\<close> below gives back the equations of the nested
  recursion. The marks are a Go \<^verbatim>\<open>map[string]bool\<close> that only ever holds \<^verbatim>\<open>true\<close>:
  the model keeps the marked names as the list \<open>seen\<close>, in the order of marking, which in
  \<^verbatim>\<open>Dependents\<close> and \<^verbatim>\<open>Dependencies\<close> is also the slice \<^verbatim>\<open>result\<close>, appended to
  at each marking.
\<close>

function walk :: "(string, string list) fmap \<Rightarrow> string list \<Rightarrow> string list \<Rightarrow> string list" where
  "walk adj [] seen = seen"
| "walk adj (d # todo) seen =
     (if d \<in> set seen then walk adj todo seen
      else walk adj (at_list adj d @ todo) (seen @ [d]))"
  by pat_completeness auto
termination
proof (relation "(\<lambda>(adj, todo, seen). card (fmdom' adj - set seen)) <*mlex*>
                 measure (\<lambda>(adj, todo, seen). length todo)", goal_cases)
  case 1
  show ?case by (simp add: wf_mlex)
next
  case (2 adj d todo seen)
  then show ?case by (simp add: mlex_iff)
next
  case (3 adj d todo seen)
  show ?case
  proof (cases "d \<in> fmdom' adj")
    case True
    have "fmdom' adj - set (seen @ [d]) \<subset> fmdom' adj - set seen" using True 3 by auto
    then have "card (fmdom' adj - set (seen @ [d])) < card (fmdom' adj - set seen)"
      by (intro psubset_card_mono) simp_all
    then show ?thesis by (simp add: mlex_iff)
  next
    case False
    then have "at_list adj d = []" by (simp add: at_list_def fmdom'_notD)
    moreover have "fmdom' adj - set (seen @ [d]) = fmdom' adj - set seen" using False by auto
    ultimately show ?thesis by (simp add: mlex_iff)
  qed
qed

definition Dependents :: "DependencyGraph \<Rightarrow> string \<Rightarrow> string list" where
  "Dependents g name = walk (reverse g) (at_list (reverse g) name) []"

definition Dependencies :: "DependencyGraph \<Rightarrow> string \<Rightarrow> string list" where
  "Dependencies g name = walk (forward g) (at_list (forward g) name) []"

subsection \<open>Start order\<close>

definition collectDeps :: "DependencyGraph \<Rightarrow> string \<Rightarrow> string list \<Rightarrow> string list" where
  "collectDeps g name required = walk (forward g) [name] required"

text \<open>The loop over the targets, which fails at the first unknown one.\<close>

fun collectTargets :: "DependencyGraph \<Rightarrow> string list \<Rightarrow> string list \<Rightarrow> error + string list" where
  "collectTargets g [] required = Inr required"
| "collectTargets g (t # ts) required =
     (if \<not> at_bool (nodes g) t then Inl (UnknownProcess t)
      else collectTargets g ts (collectDeps g t required))"

text \<open>
  \<^verbatim>\<open>inDegree\<close> is a Go map that the code ranges over: the model holds it as an
  association list, read with the zero value at a missing key.
\<close>

definition at_int :: "(string \<times> int) list \<Rightarrow> string \<Rightarrow> int" where
  "at_int m k = (case map_of m k of None \<Rightarrow> 0 | Some v \<Rightarrow> v)"

definition countRequired :: "DependencyGraph \<Rightarrow> string list \<Rightarrow> string \<Rightarrow> int" where
  "countRequired g required name =
     int (length (filter (\<lambda>dep. dep \<in> set required) (at_list (forward g) name)))"

definition initInDegree :: "DependencyGraph \<Rightarrow> string list \<Rightarrow> string list \<Rightarrow> (string \<times> int) list" where
  "initInDegree g required names =
     fold (\<lambda>name m. AList.update name (countRequired g required name) m) names []"

text \<open>
  \<open>relax\<close> is the body of the loop over \<^verbatim>\<open>g.reverse[node]\<close>, on the pair of
  \<^verbatim>\<open>inDegree\<close> and \<^verbatim>\<open>queue\<close>.
\<close>

definition relax :: "string list \<Rightarrow> string \<Rightarrow> (string \<times> int) list \<times> string list
    \<Rightarrow> (string \<times> int) list \<times> string list" where
  "relax required dep st =
     (let inDegree = fst st; queue = snd st in
      if dep \<notin> set required then (inDegree, queue)
      else
        let inDegree1 = AList.update dep (at_int inDegree dep - 1) inDegree
        in if at_int inDegree1 dep = 0 then (inDegree1, queue @ [dep]) else (inDegree1, queue))"

text \<open>
  The loop \<^verbatim>\<open>for len(queue) > 0\<close> ends because every round takes one name off the
  queue and puts back one name for each count that it brings from 1 to 0.
\<close>

definition positive_names :: "string list \<Rightarrow> (string \<times> int) list \<Rightarrow> string set" where
  "positive_names required inDegree = {x \<in> set required. 0 < at_int inDegree x}"

lemma at_int_update: "at_int (AList.update k v m) x = (if x = k then v else at_int m x)"
  by (simp add: at_int_def update_conv')

lemma relax_measure:
  "card (positive_names required (fst (relax required dep st))) + length (snd (relax required dep st))
   = card (positive_names required (fst st)) + length (snd st)"
proof (cases "dep \<in> set required")
  case False
  then show ?thesis by (simp add: relax_def Let_def)
next
  case True
  let ?m = "fst st" let ?v = "at_int ?m dep"
  let ?m1 = "AList.update dep (?v - 1) ?m"
  show ?thesis
  proof (cases "?v = 1")
    case one: True
    have "positive_names required ?m = insert dep (positive_names required ?m1)"
      using True one by (auto simp: positive_names_def at_int_update)
    moreover have "dep \<notin> positive_names required ?m1"
      using one by (simp add: positive_names_def at_int_update)
    moreover have "finite (positive_names required ?m1)" by (simp add: positive_names_def)
    ultimately have "card (positive_names required ?m) = Suc (card (positive_names required ?m1))"
      by simp
    then show ?thesis using True one by (simp add: relax_def Let_def at_int_update)
  next
    case False
    have "positive_names required ?m1 = positive_names required ?m"
      using False by (auto simp: positive_names_def at_int_update)
    then show ?thesis using True False by (simp add: relax_def Let_def at_int_update)
  qed
qed

lemma fold_relax_measure:
  "card (positive_names required (fst (fold (relax required) ds st)))
     + length (snd (fold (relax required) ds st))
   = card (positive_names required (fst st)) + length (snd st)"
  by (induction ds arbitrary: st) (simp_all add: relax_measure)

function kahn :: "DependencyGraph \<Rightarrow> string list \<Rightarrow> (string \<times> int) list \<Rightarrow> string list
    \<Rightarrow> string list \<Rightarrow> string list" where
  "kahn g required inDegree [] order = order"
| "kahn g required inDegree (node # queue) order =
     (let st = fold (relax required) (at_list (reverse g) node) (inDegree, queue)
      in kahn g required (fst st) (snd st) (order @ [node]))"
  by pat_completeness auto
termination
proof (relation "measure (\<lambda>(g, required, inDegree, queue, order).
                    card (positive_names required inDegree) + length queue)", goal_cases)
  case 1
  show ?case by simp
next
  case (2 g required inDegree node queue order x)
  show ?case
    using fold_relax_measure[of required "at_list (reverse g) node" "(inDegree, queue)"] 2
    by simp
qed

text \<open>
  \<^verbatim>\<open>StartOrder\<close> ranges over two Go maps, and the order of a \<^verbatim>\<open>range\<close> over a map
  is not specified: \<open>it1\<close> gives the order in which the names of \<^verbatim>\<open>required\<close> are
  visited, \<open>it2\<close> the order in which the entries of \<^verbatim>\<open>inDegree\<close> are. Each is some
  rearrangement of what the map holds. \<^verbatim>\<open>required\<close> holds only \<^verbatim>\<open>true\<close>, so that
  \<^verbatim>\<open>required[dep]\<close> is membership and its length the number of names.
\<close>

definition StartOrder :: "(string list \<Rightarrow> string list) \<Rightarrow> ((string \<times> int) list \<Rightarrow> (string \<times> int) list)
    \<Rightarrow> DependencyGraph \<Rightarrow> string list \<Rightarrow> error + string list" where
  "StartOrder it1 it2 g targets =
     (case collectTargets g targets [] of
        Inl e \<Rightarrow> Inl e
      | Inr required \<Rightarrow>
          let inDegree = initInDegree g required (it1 required);
              queue = map fst (filter (\<lambda>(name, deg). deg = 0) (it2 inDegree));
              order = kahn g required inDegree queue []
          in if length order \<noteq> length required then Inl CycleDetected else Inr order)"

subsection \<open>Stop order\<close>

text \<open>The loop that reverses the slice in place, with its two indices.\<close>

function reverseInPlace :: "int \<Rightarrow> int \<Rightarrow> 'a list \<Rightarrow> 'a list" where
  "reverseInPlace i j order =
     (if i < j
      then reverseInPlace (i + 1) (j - 1) (order[nat i := order ! nat j, nat j := order ! nat i])
      else order)"
  by pat_completeness auto
termination
  by (relation "measure (\<lambda>(i, j, order). nat (j - i))") auto

declare reverseInPlace.simps [simp del]

definition StopOrder :: "(string list \<Rightarrow> string list) \<Rightarrow> ((string \<times> int) list \<Rightarrow> (string \<times> int) list)
    \<Rightarrow> DependencyGraph \<Rightarrow> string list \<Rightarrow> error + string list" where
  "StopOrder it1 it2 g targets =
     (case StartOrder it1 it2 g targets of
        Inl e \<Rightarrow> Inl e
      | Inr order \<Rightarrow> Inr (reverseInPlace 0 (int (length order) - 1) order))"

section \<open>Process manager\<close>

text \<open>
  The manager is modelled as it runs one operation from start to end with nothing else
  running: the monitors, which act only once a child has exited by itself or a backoff
  has elapsed, are left out. The event channel has room for 100 events and nobody reads
  it meanwhile.
\<close>

record StateEvent =
  ev_Name :: string
  ev_OldState :: Status
  ev_NewState :: Status
  ev_Error :: string

record ProcessManager =
  config :: Config
  graph :: DependencyGraph
  processes :: "(string, ManagedProcess) fmap"
  events :: "StateEvent list"

text \<open>
  What the operation meets outside the program: how the spawn of each process goes, how
  its child exits once signalled, and the time.
\<close>

record world =
  spawn_of :: "string \<Rightarrow> spawn_result"
  exit_of :: "string \<Rightarrow> wait_result"
  now :: time

fun error_text :: "error \<Rightarrow> string" where
  "error_text (AlreadyRunning name) = ''process '' @ name @ '' is already running''"
| "error_text (SpawnError name msg) = ''starting process '' @ name @ '': '' @ msg"
| "error_text (UnknownProcess name) = ''unknown process: '' @ name"
| "error_text CycleDetected = ''dependency cycle detected''"
| "error_text (Wrapped prefix e) = prefix @ '': '' @ error_text e"

definition emitEvent :: "string \<Rightarrow> Status \<Rightarrow> Status \<Rightarrow> string \<Rightarrow> ProcessManager \<Rightarrow> ProcessManager" where
  "emitEvent name oldState newState errMsg pm =
     (if length (events pm) < 100
      then pm\<lparr>events := events pm @ [\<lparr>ev_Name = name, ev_OldState = oldState,
                                       ev_NewState = newState, ev_Error = errMsg\<rparr>]\<rparr>
      else pm)"

text \<open>
  The processes are reached through pointers and mutated in place; the model writes the
  mutated process back with \<open>put_process\<close>. A name that \<^verbatim>\<open>pm.processes\<close> does not hold
  gives a nil pointer, and the first method called on it panics: the operations answer
  \<open>None\<close> then, and otherwise the error they return (if any) with the manager.
\<close>

definition put_process :: "string \<Rightarrow> ManagedProcess \<Rightarrow> ProcessManager \<Rightarrow> ProcessManager" where
  "put_process name p pm = pm\<lparr>processes := fmupd name p (processes pm)\<rparr>"

definition startSingle :: "world \<Rightarrow> string \<Rightarrow> ProcessManager \<Rightarrow> (error option \<times> ProcessManager) option" where
  "startSingle w name pm =
     (case fmlookup (processes pm) name of
        None \<Rightarrow> None
      | Some p \<Rightarrow>
          let oldStatus = Status (mp_state p);
              r = Start (spawn_of w name) (now w) p;
              pm1 = put_process name (snd r) pm
          in case fst r of
               Some err \<Rightarrow> Some (Some err, emitEvent name oldStatus StatusFailed (error_text err) pm1)
             | None \<Rightarrow> Some (None, emitEvent name oldStatus StatusRunning [] pm1))"

definition stopSingle :: "world \<Rightarrow> string \<Rightarrow> ProcessManager \<Rightarrow> (error option \<times> ProcessManager) option" where
  "stopSingle w name pm =
     (case fmlookup (processes pm) name of
        None \<Rightarrow> None
      | Some p \<Rightarrow>
          let oldStatus = Status (mp_state p) in
          if oldStatus = StatusRetrying
          then Some (None, emitEvent name oldStatus StatusStopped []
                             (put_process name (SetStatus StatusStopped p) pm))
          else Some (None, emitEvent name oldStatus StatusStopped []
                             (put_process name (Stop (exit_of w name) (now w) p) pm)))"

text \<open>The loop of \<^verbatim>\<open>StopProcess\<close> over the dependents; an error of \<^verbatim>\<open>stopSingle\<close> is only logged.\<close>

fun stopDependents :: "world \<Rightarrow> string list \<Rightarrow> ProcessManager \<Rightarrow> ProcessManager option" where
  "stopDependents w [] pm = Some pm"
| "stopDependents w (dep # deps) pm =
     (case fmlookup (processes pm) dep of
        None \<Rightarrow> None
      | Some p \<Rightarrow>
          if Status (mp_state p) = StatusRunning \<or> Status (mp_state p) = StatusStarting
             \<or> Status (mp_state p) = StatusRetrying
          then (case stopSingle w dep pm of
                  None \<Rightarrow> None
                | Some r \<Rightarrow> stopDependents w deps (snd r))
          else stopDependents w deps pm)"

definition StopProcess :: "world \<Rightarrow> string \<Rightarrow> ProcessManager \<Rightarrow> (error option \<times> ProcessManager) option" where
  "StopProcess w name pm =
     (case stopDependents w (Dependents (graph pm) name) pm of
        None \<Rightarrow> None
      | Some pm1 \<Rightarrow> stopSingle w name pm1)"

text \<open>The first loop of \<^verbatim>\<open>RestartProcess\<close>, which fills \<^verbatim>\<open>restartDeps\<close>.\<close>

fun collectRestartDeps :: "ProcessManager \<Rightarrow> string list \<Rightarrow> string list \<Rightarrow> string list option" where
  "collectRestartDeps pm [] restartDeps = Some restartDeps"
| "collectRestartDeps pm (dep # deps) restartDeps =
     (case fmlookup (processes pm) dep of
        None \<Rightarrow> None
      | Some p \<Rightarrow>
          if Status (mp_state p) = StatusRunning \<or> Status (mp_state p) = StatusStarting
             \<or> Status (mp_state p) = StatusFailed \<or> Status (mp_state p) = StatusRetrying
          then collectRestartDeps pm deps (restartDeps @ [dep])
          else collectRestartDeps pm deps restartDeps)"

text \<open>Its last loop, which restarts the dependents; an error of \<^verbatim>\<open>startSingle\<close> is only logged.\<close>

fun restartDependents :: "world \<Rightarrow> string list \<Rightarrow> ProcessManager \<Rightarrow> ProcessManager option" where
  "restartDependents w [] pm = Some pm"
| "restartDependents w (dep # deps) pm =
     (case fmlookup (processes pm) dep of
        None \<Rightarrow> None
      | Some p \<Rightarrow>
          (case startSingle w dep (put_process dep (ResetRetryCount p) pm) of
             None \<Rightarrow> None
           | Some r \<Rightarrow> restartDependents w deps (snd r)))"

definition RestartProcess :: "world \<Rightarrow> string \<Rightarrow> ProcessManager \<Rightarrow> (error option \<times> ProcessManager) option" where
  "RestartProcess w name pm =
     (case collectRestartDeps pm (Dependents (graph pm) name) [] of
        None \<Rightarrow> None
      | Some restartDeps \<Rightarrow>
          (case StopProcess w name pm of
             None \<Rightarrow> None
           | Some (Some err, pm1) \<Rightarrow> Some (Some (Wrapped (''stopping '' @ name @ '' for restart'') err), pm1)
           | Some (None, pm1) \<Rightarrow>
               (case startSingle w name pm1 of
                  None \<Rightarrow> None
                | Some (Some err, pm2) \<Rightarrow> Some (Some (Wrapped (''restarting '' @ name) err), pm2)
                | Some (None, pm2) \<Rightarrow>
                    (case restartDependents w restartDeps pm2 of
                       None \<Rightarrow> None
                     | Some pm3 \<Rightarrow> Some (None, pm3)))))"

section \<open>Notions of the specification\<close>

text \<open>
  The edges of an adjacency map, the closure of a target list under the forward edges,
  and the names known to a graph.
\<close>

definition edges :: "(string, string list) fmap \<Rightarrow> (string \<times> string) set" where
  "edges adj = {(x, d). d \<in> set (at_list adj x)}"

definition forward_closure :: "DependencyGraph \<Rightarrow> string list \<Rightarrow> string set" where
  "forward_closure g targets = {y. \<exists>t \<in> set targets. (t, y) \<in> (edges (forward g))\<^sup>*}"

definition known :: "DependencyGraph \<Rightarrow> string \<Rightarrow> bool" where
  "known g t = at_bool (nodes g) t"

text \<open>
  The two adjacency maps agree: \<open>x\<close> is listed among the dependents of \<open>d\<close> as many
  times as \<open>d\<close> is listed among the dependencies of \<open>x\<close>.
\<close>

definition consistent :: "DependencyGraph \<Rightarrow> bool" where
  "consistent g \<longleftrightarrow>
     (\<forall>x d. count_list (at_list (reverse g) d) x = count_list (at_list (forward g) x) d)"

text \<open>
  The invariant of the loop of Kahn's algorithm in \<^verbatim>\<open>StartOrder\<close>: \<open>unmet\<close> are the
  dependencies of a name that are not yet in the order; a name is in the order or in the
  queue exactly when it has none left.
\<close>

definition unmet :: "DependencyGraph \<Rightarrow> string list \<Rightarrow> string \<Rightarrow> string list" where
  "unmet g order x = filter (\<lambda>d. d \<notin> set order) (at_list (forward g) x)"

definition topo :: "DependencyGraph \<Rightarrow> string list \<Rightarrow> bool" where
  "topo g order \<longleftrightarrow>
     (\<forall>i < length order. set (at_list (forward g) (order ! i)) \<subseteq> set (take i order))"

definition kinv :: "DependencyGraph \<Rightarrow> string list \<Rightarrow> (string \<times> int) list \<Rightarrow> string list
    \<Rightarrow> string list \<Rightarrow> bool" where
  "kinv g required inDegree queue order \<longleftrightarrow>
     distinct (order @ queue) \<and> set (order @ queue) \<subseteq> set required
     \<and> (\<forall>x \<in> set required. at_int inDegree x = int (length (unmet g order x)))
     \<and> (\<forall>x \<in> set required. x \<in> set (order @ queue) \<longleftrightarrow> unmet g order x = [])
     \<and> topo g order"

section \<open>Catalogs and states of the scenarios\<close>

definition default_policy :: RetryConfig where
  "default_policy = \<lparr>Enabled = True, MaxAttempts = 3, InitialBackoff = 2000000000,
                     MaxBackoff = 60000000000, BackoffMultiplier = 2\<rparr>"

text \<open>A policy with a backoff of one nanosecond, which the configuration accepts.\<close>

definition tiny_policy :: RetryConfig where
  "tiny_policy = \<lparr>Enabled = True, MaxAttempts = 3, InitialBackoff = 1, MaxBackoff = 1,
                  BackoffMultiplier = 1\<rparr>"


definition exact_pow :: "real \<Rightarrow> nat \<Rightarrow> real" where
  "exact_pow x n = x ^ n"

definition proc :: "string list \<Rightarrow> Process" where
  "proc ds = \<lparr>Command = ''sleep 3600'', DependsOn = ds, Retry = default_policy\<rparr>"

definition diamond :: Config where
  "diamond = \<lparr>Processes = [(''D'', proc [''B'', ''C'']), (''B'', proc [''A'']),
                            (''A'', proc []), (''C'', proc [''A''])]\<rparr>"

definition diamond_rank :: "string \<Rightarrow> nat" where
  "diamond_rank n = (if n = ''A'' then 0 else if n = ''D'' then 2 else 1)"

text \<open>A process with two dependencies that do not depend on each other.\<close>

definition fork :: Config where
  "fork = \<lparr>Processes = [(''D'', proc [''B'', ''C'']), (''B'', proc []), (''C'', proc [])]\<rparr>"

definition chain :: Config where
  "chain = \<lparr>Processes = [(''A'', proc []), (''B'', proc [''A'']), (''C'', proc [''B''])]\<rparr>"

definition single :: Config where
  "single = \<lparr>Processes = [(''A'', proc [])]\<rparr>"

definition calm :: world where
  "calm = \<lparr>spawn_of = (\<lambda>name. PtyStarted 4242), exit_of = (\<lambda>name. ExitError (- 1) ''signal: terminated''),
           now = 1000\<rparr>"

definition running :: "string \<Rightarrow> string list \<Rightarrow> ManagedProcess" where
  "running name ds = snd (Start (PtyStarted 4000) 500 (NewManagedProcess name (proc ds)))"

text \<open>The linear chain with its three processes running.\<close>

definition chain_running :: ProcessManager where
  "chain_running =
     \<lparr>config = chain, graph = NewDependencyGraph chain,
      processes = fmupd ''C'' (running ''C'' [''B'']) (fmupd ''B'' (running ''B'' [''A''])
                    (fmupd ''A'' (running ''A'' []) fmempty)),
      events = []\<rparr>"

text \<open>
  A process whose child has failed and for which the monitor has scheduled the second
  retry.
\<close>

definition retrying_twice :: ManagedProcess where
  "retrying_twice =
     SetRetryState 2 900 (SetStatus StatusRetrying
       (waitForExit (ExitError 1 ''exit status 1'') 600 (running ''A'' [])))"

definition single_retrying :: ProcessManager where
  "single_retrying =
     \<lparr>config = single, graph = NewDependencyGraph single,
      processes = fmupd ''A'' retrying_twice fmempty, events = []\<rparr>"

lemmas graph_eval = NewDependencyGraph_def add_process_def add_reverse_def at_list_def at_bool_def
  at_int_def proc_def diamond_def chain_def single_def fork_def Let_def

section \<open>Retry eligibility\<close>

text \<open>
  Claim C4. For an attempt count \<open>n \<ge> 0\<close> and any retry policy, \<open>shouldRetry\<close> answers
  false when the policy is disabled; when it is enabled it answers true for every \<open>n\<close> if
  \<open>max_attempts\<close> is 0, and otherwise answers true exactly when \<open>n < max_attempts\<close>.
\<close>

theorem shouldRetry_spec:
  assumes "0 \<le> n"
  shows "(\<not> Enabled cfg \<longrightarrow> \<not> shouldRetry n cfg)
       \<and> (Enabled cfg \<and> MaxAttempts cfg = 0 \<longrightarrow> shouldRetry n cfg)
       \<and> (Enabled cfg \<and> MaxAttempts cfg \<noteq> 0 \<longrightarrow> (shouldRetry n cfg \<longleftrightarrow> n < MaxAttempts cfg))"
  by (simp add: shouldRetry_def)

theorem shouldRetry_spec_witness:
  "\<not> shouldRetry 0 \<lparr>Enabled = False, MaxAttempts = 5, InitialBackoff = 1, MaxBackoff = 1,
                     BackoffMultiplier = 1\<rparr>
   \<and> shouldRetry 999999 \<lparr>Enabled = True, MaxAttempts = 0, InitialBackoff = 1, MaxBackoff = 1,
                         BackoffMultiplier = 1\<rparr>
   \<and> shouldRetry 2 \<lparr>Enabled = True, MaxAttempts = 3, InitialBackoff = 1, MaxBackoff = 1,
                    BackoffMultiplier = 1\<rparr>
   \<and> \<not> shouldRetry 3 \<lparr>Enabled = True, MaxAttempts = 3, InitialBackoff = 1, MaxBackoff = 1,
                      BackoffMultiplier = 1\<rparr>"
  using shouldRetry_spec [of 0 "\<lparr>Enabled = False, MaxAttempts = 5, InitialBackoff = 1,
                                 MaxBackoff = 1, BackoffMultiplier = 1\<rparr>"]
    shouldRetry_spec [of 999999 "\<lparr>Enabled = True, MaxAttempts = 0, InitialBackoff = 1,
                                  MaxBackoff = 1, BackoffMultiplier = 1\<rparr>"]
    shouldRetry_spec [of 2 "\<lparr>Enabled = True, MaxAttempts = 3, InitialBackoff = 1,
                             MaxBackoff = 1, BackoffMultiplier = 1\<rparr>"]
    shouldRetry_spec [of 3 "\<lparr>Enabled = True, MaxAttempts = 3, InitialBackoff = 1,
                             MaxBackoff = 1, BackoffMultiplier = 1\<rparr>"]
  by simp

section \<open>Backoff\<close>

subsection \<open>Rounding\<close>





subsection \<open>Bounds on the values that the code computes\<close>










lemma fl_zero: "fl 0 = 0"
  by (simp add: fl_def)


subsection \<open>The backoff at some policies and draws\<close>

text \<open>
  \<open>fl_eval\<close> computes a rounding once the exponent is given. The last two values below
  show the rounding at work: a draw just below 0.5 gives one nanosecond where the exact
  jittered value is below 1, and the largest draw takes the backoff above
  \<open>1.1 \<cdot> cap\<close>.
\<close>

lemma fl_eval:
  assumes q: "x * 2 ^ k = q" and lo: "2 ^ 52 \<le> q" and hi: "q < 2 ^ 53"
    and y: "of_int (round_even q) / 2 ^ k = y"
  shows "fl x = y"
proof -
  have x: "x = q / 2 ^ k" using q by (simp add: field_simps)
  have x0: "0 < x" using lo x by simp
  have "(2::real) powr (52 - int k) \<le> x \<and> x < 2 powr (52 - int k + 1)"
  proof -
    have a: "(2::real) powr (52 - int k) = 2 ^ 52 / 2 ^ k"
      by (simp add: powr_diff powr_realpow)
    have b: "(2::real) powr (52 - int k + 1) = 2 ^ 53 / 2 ^ k"
    proof -
      have "(52 - int k + 1 :: real) = 53 - real k" by simp
      then show ?thesis by (simp add: powr_diff powr_realpow)
    qed
    show ?thesis unfolding a b x using lo hi by (simp add: divide_right_mono divide_strict_right_mono)
  qed
  then have e: "\<lfloor>log 2 x\<rfloor> = 52 - int k"
    using x0 by (subst floor_log_eq_powr_iff) simp_all
  have p1: "(2::real) powr (52 - of_int (52 - int k)) = 2 ^ k" by (simp add: powr_realpow)
  have p2: "(2::real) powr (of_int (52 - int k) - 52) = 1 / 2 ^ k"
    by (simp add: powr_minus_divide powr_realpow)
  have "fl x = of_int (round_even (x * 2 ^ k)) * (1 / 2 ^ k)"
    using x0 by (simp add: fl_def e Let_def p1 p2 del: of_int_diff)
  then show ?thesis using q y by simp
qed





lemma nextBackoff_tiny_near_half:
  "nextBackoff exact_pow 0 tiny_policy (4503599627370495 / 9007199254740992) = Some 1"
proof -
  have f0: "fl (1) = 1"
    by (rule fl_eval[where k = 52 and q = "4503599627370496"]) (simp_all add: round_even_def)
  have f1: "fl (1 / 10) = 3602879701896397 / 36028797018963968"
    by (rule fl_eval[where k = 56 and q = "36028797018963968 / 5"]) (simp_all add: round_even_def)
  have f2: "fl (3602879701896397 / 36028797018963968) = 3602879701896397 / 36028797018963968"
    by (rule fl_eval[where k = 56 and q = "7205759403792794"]) (simp_all add: round_even_def)
  have f3: "fl (32425917317067571 / 36028797018963968) = 8106479329266893 / 9007199254740992"
    by (rule fl_eval[where k = 53 and q = "32425917317067571 / 4"]) (simp_all add: round_even_def)
  have f4: "fl (4503599627370495 / 4503599627370496) = 4503599627370495 / 4503599627370496"
    by (rule fl_eval[where k = 53 and q = "9007199254740990"]) (simp_all add: round_even_def)
  have f5: "fl (16225927682921333636998024606515 / 162259276829213363391578010288128) = 900719925474099 / 9007199254740992"
    by (rule fl_eval[where k = 56 and q = "16225927682921333636998024606515 / 2251799813685248"]) (simp_all add: round_even_def)
  show ?thesis
    by (simp add: nextBackoff_def Pow_def tiny_policy_def toDuration_def Let_def fl_zero f0 f1 f2 f3 f4 f5)
qed


subsection \<open>Range and sign of the backoff\<close>







section \<open>Frame of a successful start\<close>

text \<open>
  Claim C10. \<open>Start\<close> succeeds whenever the process is not running and the spawn gives a
  child, through the PTY or through the pipes; it then clears \<open>stopped_at\<close>, \<open>last_error\<close>
  and \<open>exit_code\<close>, sets the status to running, the pid to the child's and \<open>started_at\<close> to
  the current time, and leaves every other field of the state, \<open>retry_count\<close> and
  \<open>next_retry_at\<close> among them, as it was. Conversely a call of \<open>Start\<close> that returns no error
  was made on a process that was not running, with a spawn that gave a child, and has
  written exactly these fields; the setter \<open>ResetRetryCount\<close> is what puts \<open>retry_count\<close> and
  \<open>next_retry_at\<close> back to zero.
\<close>

theorem Start_success_frame:
  "(Status (mp_state p) \<noteq> StatusRunning \<and> (spawn = PtyStarted pid \<or> spawn = PipeStarted pid) \<longrightarrow>
      fst (Start spawn t p) = None
    \<and> mp_state (snd (Start spawn t p))
        = (mp_state p)\<lparr>Status := StatusRunning, PID := pid, StartedAt := t, StoppedAt := 0,
                        LastError := [], ExitCode := 0\<rparr>
    \<and> RetryCount (mp_state (snd (Start spawn t p))) = RetryCount (mp_state p)
    \<and> NextRetryAt (mp_state (snd (Start spawn t p))) = NextRetryAt (mp_state p))
   \<and> (Start spawn t p = (None, p') \<longrightarrow>
        Status (mp_state p) \<noteq> StatusRunning
      \<and> StoppedAt (mp_state p') = 0 \<and> LastError (mp_state p') = [] \<and> ExitCode (mp_state p') = 0
      \<and> Status (mp_state p') = StatusRunning
      \<and> (spawn = PtyStarted (PID (mp_state p')) \<or> spawn = PipeStarted (PID (mp_state p')))
      \<and> StartedAt (mp_state p') = t
      \<and> RetryCount (mp_state p') = RetryCount (mp_state p)
      \<and> NextRetryAt (mp_state p') = NextRetryAt (mp_state p)
      \<and> RetryCount (mp_state (ResetRetryCount p')) = 0
      \<and> NextRetryAt (mp_state (ResetRetryCount p')) = 0)"
  by (auto simp: Start_def Let_def ResetRetryCount_def split: if_splits spawn_result.splits)

theorem Start_success_frame_witness:
  "Status (mp_state retrying_twice) \<noteq> StatusRunning
   \<and> RetryCount (mp_state retrying_twice) = 2 \<and> NextRetryAt (mp_state retrying_twice) = 900
   \<and> LastError (mp_state retrying_twice) = ''exit status 1''
   \<and> fst (Start (PipeStarted 4242) 1000 retrying_twice) = None
   \<and> Start (PipeStarted 4242) 1000 retrying_twice
       = (None, snd (Start (PipeStarted 4242) 1000 retrying_twice))
   \<and> Status (mp_state (snd (Start (PipeStarted 4242) 1000 retrying_twice))) = StatusRunning
   \<and> PID (mp_state (snd (Start (PipeStarted 4242) 1000 retrying_twice))) = 4242
   \<and> LastError (mp_state (snd (Start (PipeStarted 4242) 1000 retrying_twice))) = []
   \<and> RetryCount (mp_state (snd (Start (PipeStarted 4242) 1000 retrying_twice))) = 2
   \<and> NextRetryAt (mp_state (snd (Start (PipeStarted 4242) 1000 retrying_twice))) = 900
   \<and> RetryCount (mp_state (ResetRetryCount (snd (Start (PipeStarted 4242) 1000 retrying_twice)))) = 0"
proof -
  let ?S = "Start (PipeStarted 4242) 1000 retrying_twice"
  have r: "Status (mp_state retrying_twice) \<noteq> StatusRunning"
    "RetryCount (mp_state retrying_twice) = 2" "NextRetryAt (mp_state retrying_twice) = 900"
    "LastError (mp_state retrying_twice) = ''exit status 1''"
    by (simp_all add: retrying_twice_def SetRetryState_def SetStatus_def waitForExit_def
        running_def Start_def NewManagedProcess_def Let_def)
  note T = Start_success_frame[of retrying_twice "PipeStarted 4242" 4242 1000 "snd ?S"]
  have a: "fst ?S = None" using T r(1) by blast
  then have s: "?S = (None, snd ?S)" by (metis prod.collapse)
  have b: "Status (mp_state (snd ?S)) = StatusRunning"
    "LastError (mp_state (snd ?S)) = []"
    "RetryCount (mp_state (snd ?S)) = RetryCount (mp_state retrying_twice)"
    "NextRetryAt (mp_state (snd ?S)) = NextRetryAt (mp_state retrying_twice)"
    "RetryCount (mp_state (ResetRetryCount (snd ?S))) = 0"
    "PipeStarted 4242 = PtyStarted (PID (mp_state (snd ?S))) \<or> PipeStarted 4242 = PipeStarted (PID (mp_state (snd ?S)))"
    using T s by blast+
  from b(6) have c: "PID (mp_state (snd ?S)) = 4242" by simp
  show ?thesis using r a s b(1-5) c by simp
qed

section \<open>Ring buffer contents\<close>

lemma smod_nonneg: "0 \<le> a \<Longrightarrow> 0 < b \<Longrightarrow> (a::int) smod b = a mod b"
  by (simp add: smod_int_alt_def sgn_if)

lemma rb_inv_new: "0 < c \<Longrightarrow> rb_inv c [] (NewRingBuffer c)"
  by (simp add: rb_inv_def NewRingBuffer_def)

lemma rb_inv_write:
  assumes "0 < c" "rb_inv c ws rb"
  shows "rb_inv c (ws @ [l]) (WriteString l rb)"
proof -
  let ?k = "int (length ws)"
  from assms have sz: "rb_size rb = c" and len: "length (rb_lines rb) = nat c"
    and pos: "rb_pos rb = ?k mod c" and cnt: "rb_count rb = min ?k c"
    and old: "\<And>i. i < length ws \<Longrightarrow> ?k - c \<le> int i \<Longrightarrow> rb_lines rb ! nat (int i mod c) = ws ! i"
    by (auto simp: rb_inv_def)
  have pos_rng: "0 \<le> rb_pos rb" "rb_pos rb < c" using assms(1) pos by simp_all
  have newpos: "(rb_pos rb + 1) smod c = (?k + 1) mod c"
    using pos_rng assms(1) by (simp add: smod_nonneg pos mod_simps)
  have lines: "\<And>i. i < length ws + 1 \<Longrightarrow> ?k + 1 - c \<le> int i \<Longrightarrow>
      (rb_lines rb)[nat (rb_pos rb) := l] ! nat (int i mod c) = (ws @ [l]) ! i"
  proof -
    fix i assume i: "i < length ws + 1" "?k + 1 - c \<le> int i"
    show "(rb_lines rb)[nat (rb_pos rb) := l] ! nat (int i mod c) = (ws @ [l]) ! i"
    proof (cases "i = length ws")
      case True
      then show ?thesis using pos pos_rng len by simp
    next
      case False
      with i have il: "i < length ws" by simp
      have ne: "int i mod c \<noteq> ?k mod c"
      proof
        assume e: "int i mod c = ?k mod c"
        from e[symmetric] have "c dvd (?k - int i)" by (simp add: mod_eq_dvd_iff)
        moreover have "0 < ?k - int i" "?k - int i < c" using il i by simp_all
        ultimately show False using zdvd_not_zless by blast
      qed
      have "0 \<le> int i mod c" using assms(1) by simp
      then have "nat (rb_pos rb) \<noteq> nat (int i mod c)" using ne pos pos_rng
        by (simp add: eq_nat_nat_iff)
      then show ?thesis using old[OF il] i il by (simp add: nth_append)
    qed
  qed
  show ?thesis
    unfolding rb_inv_def WriteString_def Let_def
    using sz len cnt newpos lines assms(1) by (auto simp: min_def add.commute)
qed

lemma rb_inv_fold: "0 < c \<Longrightarrow> rb_inv c ws rb \<Longrightarrow> rb_inv c (ws @ vs) (fold WriteString vs rb)"
proof (induction vs arbitrary: ws rb)
  case Nil then show ?case by simp
next
  case (Cons v vs)
  from Cons.IH[OF Cons.prems(1) rb_inv_write[OF Cons.prems, of v]] show ?case by simp
qed

lemma rb_inv_All:
  assumes "0 < c" "rb_inv c ws rb"
  shows "All_rb rb = drop (length ws - nat c) ws"
proof -
  let ?k = "int (length ws)"
  let ?n = "min ?k c"
  from assms have sz: "rb_size rb = c" and len: "length (rb_lines rb) = nat c"
    and pos: "rb_pos rb = ?k mod c" and cnt: "rb_count rb = ?n"
    and old: "\<And>i. i < length ws \<Longrightarrow> ?k - c \<le> int i \<Longrightarrow> rb_lines rb ! nat (int i mod c) = ws ! i"
    by (auto simp: rb_inv_def)
  show ?thesis
  proof (cases "ws = []")
    case True
    then show ?thesis using cnt assms(1) by (simp add: All_rb_def Lines_def)
  next
    case False
    then have npos: "0 < ?n" using assms(1) by simp
    have nle: "?n \<le> c" by simp
    have pos_rng: "0 \<le> rb_pos rb" "rb_pos rb < c" using assms(1) pos by simp_all
    define start where "start = (rb_pos rb - ?n + c) smod c"
    have "0 \<le> rb_pos rb - ?n + c" using pos_rng nle by linarith
    then have "start = (rb_pos rb - ?n + c) mod c"
      unfolding start_def using assms(1) by (rule smod_nonneg)
    also have "\<dots> = (?k mod c - ?n) mod c" by (simp add: pos)
    also have "\<dots> = (?k - ?n) mod c" by (simp add: mod_simps)
    finally have start: "start = (?k - ?n) mod c" .
    have start_rng: "0 \<le> start" "start < c" using assms(1) start by simp_all
    have A: "All_rb rb = map (\<lambda>i. rb_lines rb ! nat ((start + int i) smod c)) [0..<nat ?n]"
      using npos cnt sz by (simp add: All_rb_def Lines_def Let_def start_def)
    have len_eq: "length (drop (length ws - nat c) ws) = nat ?n"
      using assms(1) by (simp add: min_def) 
    show ?thesis
    proof (rule nth_equalityI)
      show "length (All_rb rb) = length (drop (length ws - nat c) ws)"
        using A len_eq by simp
    next
      fix i assume "i < length (All_rb rb)"
      then have i: "i < nat ?n" using A by simp
      let ?j = "length ws - nat c + i"
      have j: "?j < length ws"
      proof (cases "?k \<le> c")
        case True
        then have "length ws \<le> nat c" by linarith
        then show ?thesis using i True by (simp add: min_def)
      next
        case False
        then have "nat c < length ws" "i < nat c" using i by (simp_all add: min_def)
        then show ?thesis by linarith
      qed
      have jint: "int ?j = ?k - ?n + int i"
      proof (cases "?k \<le> c")
        case True
        then have "length ws \<le> nat c" by linarith
        then show ?thesis using True by (simp add: min_def)
      next
        case False
        then have "nat c < length ws" using assms(1) by linarith
        then show ?thesis using False assms(1) by (simp add: min_def of_nat_diff)
      qed
      have jlow: "?k - c \<le> int ?j" using jint by (auto simp: min_def)
      have "(start + int i) smod c = (start + int i) mod c"
        using start_rng assms(1) by (simp add: smod_nonneg)
      also have "\<dots> = int ?j mod c" by (simp only: start jint mod_add_left_eq)
      finally have "All_rb rb ! i = rb_lines rb ! nat (int ?j mod c)"
        using A i by simp
      also have "\<dots> = ws ! ?j" using old[OF j jlow] .
      also have "\<dots> = drop (length ws - nat c) ws ! i" using j by simp
      finally show "All_rb rb ! i = drop (length ws - nat c) ws ! i" .
    qed
  qed
qed

text \<open>
  Claim C8. For a ring buffer of capacity \<open>c > 0\<close> and any sequence of \<open>k\<close> calls of
  \<open>write_line\<close>, \<open>all()\<close> returns exactly the last \<open>min(k, c)\<close> lines written, in the order
  they were written, and \<open>len()\<close> returns \<open>min(k, c)\<close>.
\<close>

theorem ring_buffer_all_len:
  assumes "0 < c"
  shows "All_rb (fold WriteString ws (NewRingBuffer c))
           = drop (length ws - nat (min (int (length ws)) c)) ws
       \<and> Len (fold WriteString ws (NewRingBuffer c)) = min (int (length ws)) c"
proof -
  have inv: "rb_inv c ws (fold WriteString ws (NewRingBuffer c))"
    using rb_inv_fold[OF assms rb_inv_new[OF assms], of ws] by simp
  have "drop (length ws - nat (min (int (length ws)) c)) ws = drop (length ws - nat c) ws"
    using assms by (auto simp: min_def)
  then show ?thesis using rb_inv_All[OF assms inv] inv by (simp add: rb_inv_def Len_def)
qed

theorem ring_buffer_all_len_witness:
  "(0::int) < 3
   \<and> All_rb (fold WriteString [''a'', ''b'', ''c'', ''d'', ''e''] (NewRingBuffer 3)) = [''c'', ''d'', ''e'']
   \<and> Len (fold WriteString [''a'', ''b'', ''c'', ''d'', ''e''] (NewRingBuffer 3)) = 3
   \<and> All_rb (fold WriteString [''a'', ''b''] (NewRingBuffer 3)) = [''a'', ''b'']
   \<and> Len (fold WriteString [''a'', ''b''] (NewRingBuffer 3)) = 2"
  using ring_buffer_all_len[of 3 "[''a'', ''b'', ''c'', ''d'', ''e'']"]
    ring_buffer_all_len[of 3 "[''a'', ''b'']"]
  by simp

section \<open>Traversal of the graph\<close>

lemma walk_superset: "set seen \<union> set todo \<subseteq> set (walk adj todo seen)"
  by (induction adj todo seen rule: walk.induct) auto

lemma walk_distinct: "distinct seen \<Longrightarrow> distinct (walk adj todo seen)"
  by (induction adj todo seen rule: walk.induct) auto

lemma walk_closed:
  "(\<forall>v \<in> set seen. set (at_list adj v) \<subseteq> set seen \<union> set todo) \<Longrightarrow>
   (\<forall>v \<in> set (walk adj todo seen). set (at_list adj v) \<subseteq> set (walk adj todo seen))"
proof (induction adj todo seen rule: walk.induct)
  case (1 adj seen)
  then show ?case by simp
next
  case (2 adj d todo seen)
  show ?case
  proof (cases "d \<in> set seen")
    case True
    have "\<forall>v\<in>set seen. set (at_list adj v) \<subseteq> set seen \<union> set todo"
      using "2.prems" True by auto
    from "2.IH"(1)[OF True this] show ?thesis using True by simp
  next
    case False
    have "\<forall>v\<in>set (seen @ [d]). set (at_list adj v) \<subseteq> set (seen @ [d]) \<union> set (at_list adj d @ todo)"
      using "2.prems" by auto
    from "2.IH"(2)[OF False this] show ?thesis using False by simp
  qed
qed

lemma walk_within:
  "set seen \<union> set todo \<subseteq> S \<Longrightarrow> (\<forall>v \<in> S. set (at_list adj v) \<subseteq> S) \<Longrightarrow>
   set (walk adj todo seen) \<subseteq> S"
proof (induction adj todo seen rule: walk.induct)
  case (1 adj seen)
  then show ?case by simp
next
  case (2 adj d todo seen)
  show ?case
  proof (cases "d \<in> set seen")
    case True
    then show ?thesis using 2 by simp
  next
    case False
    have "set (seen @ [d]) \<union> set (at_list adj d @ todo) \<subseteq> S" using "2.prems" by auto
    from "2.IH"(2)[OF False this "2.prems"(2)] show ?thesis using False by simp
  qed
qed

lemma walk_append: "walk adj (xs @ ys) seen = walk adj ys (walk adj xs seen)"
  by (induction adj xs seen rule: walk.induct) simp_all

text \<open>The equations of the recursive closure in the source.\<close>

lemma walk_Cons:
  "walk adj (d # ds) seen =
     (if d \<in> set seen then walk adj ds seen
      else walk adj ds (walk adj (at_list adj d) (seen @ [d])))"
  by (simp add: walk_append)

lemma walk_reach:
  "set (walk adj todo []) = (edges adj)\<^sup>* `` set todo"
proof
  show "set (walk adj todo []) \<subseteq> (edges adj)\<^sup>* `` set todo"
  proof (rule walk_within)
    show "set [] \<union> set todo \<subseteq> (edges adj)\<^sup>* `` set todo" by auto
    show "\<forall>v\<in>(edges adj)\<^sup>* `` set todo. set (at_list adj v) \<subseteq> (edges adj)\<^sup>* `` set todo"
      by (auto simp: edges_def intro: rtrancl_into_rtrancl)
  qed
next
  have closed: "\<forall>v \<in> set (walk adj todo []). set (at_list adj v) \<subseteq> set (walk adj todo [])"
    by (rule walk_closed) simp
  have "y \<in> set (walk adj todo [])" if "(t, y) \<in> (edges adj)\<^sup>*" "t \<in> set todo" for t y
    using that
  proof (induction rule: rtrancl_induct)
    case base
    then show ?case using walk_superset[of "[]" todo adj] by auto
  next
    case (step y z)
    then show ?case using closed by (auto simp: edges_def)
  qed
  then show "(edges adj)\<^sup>* `` set todo \<subseteq> set (walk adj todo [])" by auto
qed

lemma trancl_via_first: "r\<^sup>+ `` {x} = r\<^sup>* `` (r `` {x})"
proof -
  have "r\<^sup>+ = r O r\<^sup>*" by (simp add: trancl_unfold_left)
  then show ?thesis by auto
qed

lemma edges_image: "edges adj `` {x} = set (at_list adj x)"
  by (auto simp: edges_def)

lemma Dependents_trancl: "set (Dependents g x) = (edges (reverse g))\<^sup>+ `` {x}"
  by (simp add: Dependents_def walk_reach trancl_via_first edges_image)

lemma Dependencies_trancl: "set (Dependencies g x) = (edges (forward g))\<^sup>+ `` {x}"
  by (simp add: Dependencies_def walk_reach trancl_via_first edges_image)

lemma fold_add_reverse_forward [simp]: "forward (fold (add_reverse n) ds g) = forward g"
  by (induction ds arbitrary: g) (simp_all add: add_reverse_def)

lemma fold_add_reverse_nodes [simp]: "nodes (fold (add_reverse n) ds g) = nodes g"
  by (induction ds arbitrary: g) (simp_all add: add_reverse_def)

lemma fold_add_reverse_reverse:
  "at_list (reverse (fold (add_reverse n) ds g)) d
   = at_list (reverse g) d @ replicate (count_list ds d) n"
proof (induction ds arbitrary: g)
  case Nil
  then show ?case by simp
next
  case (Cons a ds)
  have "at_list (reverse (add_reverse n a g)) d
        = (if d = a then at_list (reverse g) d @ [n] else at_list (reverse g) d)"
    by (simp add: add_reverse_def at_list_def)
  then show ?case using Cons.IH[of "add_reverse n a g"]
    by (simp add: replicate_app_Cons_same)
qed

lemma add_process_forward:
  "forward (add_process (n, p) g) = fmupd n (DependsOn p) (forward g)"
  by (simp add: add_process_def Let_def)

lemma add_process_nodes:
  "nodes (add_process (n, p) g) = fmupd n True (nodes g)"
  by (simp add: add_process_def Let_def)

lemma add_process_reverse:
  "at_list (reverse (add_process (n, p) g)) d
   = at_list (reverse g) d @ replicate (count_list (DependsOn p) d) n"
  by (simp add: add_process_def Let_def fold_add_reverse_reverse)

lemma count_list_replicate: "count_list (replicate k a) x = (if x = a then k else 0)"
  by (induction k) auto

lemma add_process_forward_at:
  "at_list (forward (add_process (n, p) g)) x = (if x = n then DependsOn p else at_list (forward g) x)"
  by (simp add: add_process_forward at_list_def)

lemma consistent_add_process:
  assumes "consistent g" "n \<notin> fmdom' (forward g)"
  shows "consistent (add_process (n, p) g)"
proof -
  have fn: "at_list (forward g) n = []" using assms(2) by (simp add: at_list_def fmdom'_notD)
  then have zero: "\<And>d. count_list (at_list (reverse g) d) n = 0"
    using assms(1) by (simp add: consistent_def)
  show ?thesis
    unfolding consistent_def
  proof (intro allI)
    fix x d
    show "count_list (at_list (reverse (add_process (n, p) g)) d) x
          = count_list (at_list (forward (add_process (n, p) g)) x) d"
    proof (cases "x = n")
      case True
      then show ?thesis
        by (simp add: add_process_reverse add_process_forward_at zero count_list_replicate)
    next
      case False
      then show ?thesis using assms(1)
        by (simp add: add_process_reverse add_process_forward_at consistent_def
            count_list_replicate)
    qed
  qed
qed

lemma fold_add_process_forward_dom:
  "fmdom' (forward (fold add_process ps g)) = fst ` set ps \<union> fmdom' (forward g)"
proof (induction ps arbitrary: g)
  case Nil
  then show ?case by simp
next
  case (Cons a ps)
  obtain n p where a: "a = (n, p)" by (cases a)
  show ?case using Cons.IH[of "add_process (n, p) g"] by (simp add: a add_process_forward)
qed

lemma fold_add_process_nodes:
  "at_bool (nodes (fold add_process ps g)) x \<longleftrightarrow> x \<in> fst ` set ps \<or> at_bool (nodes g) x"
proof (induction ps arbitrary: g)
  case Nil
  then show ?case by simp
next
  case (Cons a ps)
  obtain n p where a: "a = (n, p)" by (cases a)
  show ?case using Cons.IH[of "add_process (n, p) g"]
    by (auto simp: a add_process_nodes at_bool_def)
qed

lemma consistent_fold_add_process:
  assumes "consistent g" "distinct (map fst ps)" "fst ` set ps \<inter> fmdom' (forward g) = {}"
  shows "consistent (fold add_process ps g)"
  using assms
proof (induction ps arbitrary: g)
  case Nil
  then show ?case by simp
next
  case (Cons a ps)
  obtain n p where a: "a = (n, p)" by (cases a)
  have 1: "consistent (add_process (n, p) g)"
    using Cons.prems a by (intro consistent_add_process) auto
  have 2: "fst ` set ps \<inter> fmdom' (forward (add_process (n, p) g)) = {}"
    using Cons.prems a by (auto simp: add_process_forward)
  show ?case using Cons.IH[OF 1 _ 2] Cons.prems(2) by (simp add: a)
qed

lemma consistent_New:
  "distinct (map fst (Processes cfg)) \<Longrightarrow> consistent (NewDependencyGraph cfg)"
  unfolding NewDependencyGraph_def
  by (rule consistent_fold_add_process) (simp_all add: consistent_def at_list_def)

lemma nodes_New: "at_bool (nodes (NewDependencyGraph cfg)) x \<longleftrightarrow> x \<in> fst ` set (Processes cfg)"
  by (simp add: NewDependencyGraph_def fold_add_process_nodes) (simp add: at_bool_def)

lemma consistent_edges: "consistent g \<Longrightarrow> edges (reverse g) = (edges (forward g))\<inverse>"
proof -
  assume c: "consistent g"
  have "x \<in> set (at_list (reverse g) d) \<longleftrightarrow> d \<in> set (at_list (forward g) x)" for x d
    using c[unfolded consistent_def, rule_format, of d x]
    by (metis count_list_0_iff)
  then show ?thesis by (auto simp: edges_def)
qed

text \<open>
  Claim C9. In the dependency graph built from a catalog, for all process names \<open>x\<close> and
  \<open>y\<close>: \<open>y\<close> is among the dependents of \<open>x\<close> if and only if \<open>x\<close> is among the dependencies
  of \<open>y\<close>; the dependents of a name are the names reached from it by one or more reverse
  edges, its dependencies those reached by one or more forward edges, and the reverse
  edges are the forward edges turned round.
\<close>

theorem dependents_dependencies:
  assumes "distinct (map fst (Processes cfg))"
  shows "(y \<in> set (Dependents (NewDependencyGraph cfg) x)
            \<longleftrightarrow> x \<in> set (Dependencies (NewDependencyGraph cfg) y))
       \<and> set (Dependents (NewDependencyGraph cfg) x)
           = {y. (x, y) \<in> (edges (reverse (NewDependencyGraph cfg)))\<^sup>+}
       \<and> set (Dependencies (NewDependencyGraph cfg) y)
           = {x. (y, x) \<in> (edges (forward (NewDependencyGraph cfg)))\<^sup>+}
       \<and> edges (reverse (NewDependencyGraph cfg)) = (edges (forward (NewDependencyGraph cfg)))\<inverse>"
proof -
  let ?g = "NewDependencyGraph cfg"
  have e: "edges (reverse ?g) = (edges (forward ?g))\<inverse>"
    using consistent_edges[OF consistent_New[OF assms]] .
  have "y \<in> set (Dependents ?g x) \<longleftrightarrow> (x, y) \<in> ((edges (forward ?g))\<inverse>)\<^sup>+"
    by (simp add: Dependents_trancl e)
  also have "\<dots> \<longleftrightarrow> (y, x) \<in> (edges (forward ?g))\<^sup>+" by (simp add: trancl_converse)
  also have "\<dots> \<longleftrightarrow> x \<in> set (Dependencies ?g y)" by (simp add: Dependencies_trancl)
  finally show ?thesis using e by (auto simp: Dependents_trancl Dependencies_trancl)
qed

theorem dependents_dependencies_witness:
  "distinct (map fst (Processes diamond))
   \<and> Dependents (NewDependencyGraph diamond) ''A'' = [''B'', ''D'', ''C'']
   \<and> Dependencies (NewDependencyGraph diamond) ''D'' = [''B'', ''A'', ''C'']
   \<and> (''D'' \<in> set (Dependents (NewDependencyGraph diamond) ''A'')
        \<longleftrightarrow> ''A'' \<in> set (Dependencies (NewDependencyGraph diamond) ''D''))
   \<and> set [''B'', ''D'', ''C''] = {y. (''A'', y) \<in> (edges (reverse (NewDependencyGraph diamond)))\<^sup>+}
   \<and> set [''B'', ''A'', ''C''] = {x. (''D'', x) \<in> (edges (forward (NewDependencyGraph diamond)))\<^sup>+}"
proof -
  have d: "distinct (map fst (Processes diamond))" by (simp add: diamond_def)
  have 1: "Dependents (NewDependencyGraph diamond) ''A'' = [''B'', ''D'', ''C'']"
    by (simp add: Dependents_def graph_eval)
  have 2: "Dependencies (NewDependencyGraph diamond) ''D'' = [''B'', ''A'', ''C'']"
    by (simp add: Dependencies_def graph_eval)
  note T = dependents_dependencies[OF d, of "''D''" "''A''", unfolded 1 2]
  have iff: "''D'' \<in> set (Dependents (NewDependencyGraph diamond) ''A'')
        \<longleftrightarrow> ''A'' \<in> set (Dependencies (NewDependencyGraph diamond) ''D'')"
    unfolding 1 2 by simp
  have i: "set [''B'', ''D'', ''C''] = {y. (''A'', y) \<in> (edges (reverse (NewDependencyGraph diamond)))\<^sup>+}"
    "set [''B'', ''A'', ''C''] = {x. (''D'', x) \<in> (edges (forward (NewDependencyGraph diamond)))\<^sup>+}"
    using T by blast+
  show ?thesis using d 1 2 iff i by blast
qed

section \<open>Correctness of the start order\<close>

lemma relax_fst:
  "at_int (fst (relax required d st)) x
   = at_int (fst st) x - (if x = d \<and> d \<in> set required then 1 else 0)"
  by (simp add: relax_def Let_def at_int_update)

lemma relax_snd:
  "snd (relax required d st)
   = snd st @ (if d \<in> set required \<and> at_int (fst st) d = 1 then [d] else [])"
  by (simp add: relax_def Let_def at_int_update)

lemma fold_relax_fst:
  "at_int (fst (fold (relax required) ds st)) x
   = at_int (fst st) x - (if x \<in> set required then int (count_list ds x) else 0)"
proof (induction ds arbitrary: st)
  case Nil
  then show ?case by simp
next
  case (Cons d ds)
  show ?case using Cons.IH[of "relax required d st"] by (simp add: relax_fst)
qed

lemma fold_relax_snd:
  assumes "\<forall>x \<in> set required. int (count_list ds x) \<le> at_int (fst st) x"
  shows "\<exists>new. snd (fold (relax required) ds st) = snd st @ new \<and> distinct new
           \<and> set new = {x \<in> set required \<inter> set ds. at_int (fst st) x = int (count_list ds x)}"
  using assms
proof (induction ds arbitrary: st)
  case Nil
  then show ?case by simp
next
  case (Cons d ds)
  let ?st1 = "relax required d st"
  have pre: "\<forall>x \<in> set required. int (count_list ds x) \<le> at_int (fst ?st1) x"
    using Cons.prems by (auto simp: relax_fst split: if_splits)
  from Cons.IH[OF pre] obtain new where new:
    "snd (fold (relax required) ds ?st1) = snd ?st1 @ new" "distinct new"
    "set new = {x \<in> set required \<inter> set ds. at_int (fst ?st1) x = int (count_list ds x)}"
    by blast
  let ?hd = "if d \<in> set required \<and> at_int (fst st) d = 1 then [d] else []"
  have 1: "snd (fold (relax required) (d # ds) st) = snd st @ (?hd @ new)"
    using new(1) by (simp add: relax_snd)
  have dnew: "d \<notin> set new" if "d \<in> set required" "at_int (fst st) d = 1"
  proof
    assume "d \<in> set new"
    then have "d \<in> set ds" using new(3) by simp
    then have "0 < count_list ds d" by (simp add: count_list_0_iff zero_less_iff_neq_zero)
    moreover have "int (count_list (d # ds) d) \<le> at_int (fst st) d" using Cons.prems that by blast
    ultimately show False using that by simp
  qed
  have 2: "distinct (?hd @ new)" using new(2) dnew by auto
  have 3: "set (?hd @ new)
           = {x \<in> set required \<inter> set (d # ds). at_int (fst st) x = int (count_list (d # ds) x)}"
  proof (intro set_eqI iffI)
    fix x assume "x \<in> set (?hd @ new)"
    then consider "x = d" "d \<in> set required" "at_int (fst st) d = 1" | "x \<in> set new"
      by (auto split: if_splits)
    then show "x \<in> {x \<in> set required \<inter> set (d # ds). at_int (fst st) x = int (count_list (d # ds) x)}"
    proof cases
      case 1
      have "int (count_list (d # ds) d) \<le> at_int (fst st) d" using Cons.prems 1 by blast
      then have "count_list ds d = 0" using 1 by simp
      then show ?thesis using 1 by simp
    next
      case 2
      then show ?thesis using new(3) by (auto simp: relax_fst split: if_splits)
    qed
  next
    fix x assume "x \<in> {x \<in> set required \<inter> set (d # ds). at_int (fst st) x = int (count_list (d # ds) x)}"
    then have x: "x \<in> set required" "x \<in> set (d # ds)"
      "at_int (fst st) x = int (count_list (d # ds) x)" by auto
    show "x \<in> set (?hd @ new)"
    proof (cases "x \<in> set ds")
      case True
      then have "x \<in> set new" using x new(3) by (auto simp: relax_fst)
      then show ?thesis by simp
    next
      case False
      then have "x = d" "count_list ds d = 0" using x(2) by auto
      then show ?thesis using x by simp
    qed
  qed
  show ?case using 1 2 3 by blast
qed

lemma count_le_filter: "P a \<Longrightarrow> count_list xs a \<le> length (filter P xs)"
  by (induction xs) auto

lemma filter_snoc_count:
  "a \<notin> set order \<Longrightarrow>
   length (filter (\<lambda>d. d \<notin> set (order @ [a])) xs) + count_list xs a
   = length (filter (\<lambda>d. d \<notin> set order) xs)"
  by (induction xs) auto

lemma unmet_snoc:
  "a \<notin> set order \<Longrightarrow>
   int (length (unmet g (order @ [a]) x))
   = int (length (unmet g order x)) - int (count_list (at_list (forward g) x) a)"
  using filter_snoc_count[of a order "at_list (forward g) x"] by (simp add: unmet_def)

lemma unmet_empty_mono: "unmet g order x = [] \<Longrightarrow> unmet g (order @ [a]) x = []"
  by (auto simp: unmet_def filter_empty_conv)

lemma topo_snoc:
  "topo g order \<Longrightarrow> set (at_list (forward g) a) \<subseteq> set order \<Longrightarrow> topo g (order @ [a])"
  unfolding topo_def by (auto simp: nth_append less_Suc_eq)

lemma kinv_step:
  assumes c: "consistent g" and inv: "kinv g required inDegree (node # queue) order"
  shows "kinv g required (fst (fold (relax required) (at_list (reverse g) node) (inDegree, queue)))
           (snd (fold (relax required) (at_list (reverse g) node) (inDegree, queue)))
           (order @ [node])"
proof -
  let ?R = "at_list (reverse g) node"
  let ?st = "fold (relax required) ?R (inDegree, queue)"
  from inv have dist: "distinct (order @ node # queue)"
    and sub: "set (order @ node # queue) \<subseteq> set required"
    and deg: "\<And>x. x \<in> set required \<Longrightarrow> at_int inDegree x = int (length (unmet g order x))"
    and mem: "\<And>x. x \<in> set required \<Longrightarrow> x \<in> set (order @ node # queue) \<longleftrightarrow> unmet g order x = []"
    and tp: "topo g order"
    by (auto simp: kinv_def)
  have node: "node \<in> set required" "node \<notin> set order" "node \<notin> set queue"
    using dist sub by auto
  have cnt: "count_list ?R x = count_list (at_list (forward g) x) node" for x
    using c by (simp add: consistent_def)
  have pre: "\<forall>x \<in> set required. int (count_list ?R x) \<le> at_int (fst (inDegree, queue)) x"
  proof
    fix x assume x: "x \<in> set required"
    have "count_list (at_list (forward g) x) node \<le> length (unmet g order x)"
      unfolding unmet_def using node(2) by (intro count_le_filter)
    then show "int (count_list ?R x) \<le> at_int (fst (inDegree, queue)) x"
      using deg[OF x] cnt by simp
  qed
  from fold_relax_snd[OF pre] obtain new where new:
    "snd ?st = queue @ new" "distinct new"
    "set new = {x \<in> set required \<inter> set ?R. at_int inDegree x = int (count_list ?R x)}"
    by auto
  have deg': "at_int (fst ?st) x = int (length (unmet g (order @ [node]) x))"
    if "x \<in> set required" for x
    using that deg[OF that] by (simp add: fold_relax_fst unmet_snoc[OF node(2)] cnt)
  have new_fresh: "x \<notin> set (order @ node # queue)" if "x \<in> set new" for x
  proof -
    from that new(3) have x: "x \<in> set required" "x \<in> set ?R"
      "at_int inDegree x = int (count_list ?R x)" by auto
    have "0 < count_list ?R x" using x(2) by (simp add: count_list_0_iff zero_less_iff_neq_zero)
    then have "unmet g order x \<noteq> []" using deg[OF x(1)] x(3) by auto
    then show ?thesis using mem[OF x(1)] by simp
  qed
  have d': "distinct ((order @ [node]) @ queue @ new)"
    using dist new(2) new_fresh by auto
  have s': "set ((order @ [node]) @ queue @ new) \<subseteq> set required"
    using sub new(3) by auto
  have m': "x \<in> set ((order @ [node]) @ queue @ new) \<longleftrightarrow> unmet g (order @ [node]) x = []"
    if x: "x \<in> set required" for x
  proof
    assume "x \<in> set ((order @ [node]) @ queue @ new)"
    then consider "x \<in> set (order @ node # queue)" | "x \<in> set new" by auto
    then show "unmet g (order @ [node]) x = []"
    proof cases
      case 1
      then show ?thesis using mem[OF x] unmet_empty_mono by simp
    next
      case 2
      then have "at_int inDegree x = int (count_list ?R x)" using new(3) by simp
      then have "at_int (fst ?st) x = 0" using x by (simp add: fold_relax_fst)
      then show ?thesis using deg'[OF x] by simp
    qed
  next
    assume e: "unmet g (order @ [node]) x = []"
    show "x \<in> set ((order @ [node]) @ queue @ new)"
    proof (cases "x \<in> set (order @ node # queue)")
      case True
      then show ?thesis by auto
    next
      case False
      then have ne: "unmet g order x \<noteq> []" using mem[OF x] by simp
      have z: "at_int (fst ?st) x = 0" using deg'[OF x] e by simp
      then have eq: "at_int inDegree x = int (count_list ?R x)" using x by (simp add: fold_relax_fst)
      have "length (unmet g order x) = count_list ?R x" using eq deg[OF x] by simp
      then have "count_list ?R x \<noteq> 0" using ne by (metis length_0_conv)
      then have "x \<in> set ?R" by (simp add: count_list_0_iff)
      then have "x \<in> set new" using new(3) x eq by simp
      then show ?thesis by simp
    qed
  qed
  have "unmet g order node = []" using mem[OF node(1)] by simp
  then have "set (at_list (forward g) node) \<subseteq> set order"
    by (auto simp: unmet_def filter_empty_conv)
  then have t': "topo g (order @ [node])" using tp by (rule topo_snoc[rotated])
  show ?thesis
    unfolding kinv_def using d' s' deg' m' t' new(1) by simp
qed

lemma kahn_inv:
  assumes "consistent g" "kinv g required inDegree queue order"
  shows "\<exists>m. kinv g required m [] (kahn g required inDegree queue order)"
  using assms
proof (induction g required inDegree queue order rule: kahn.induct)
  case (1 g required inDegree order)
  then show ?case by auto
next
  case (2 g required inDegree node queue order)
  from kinv_step[OF "2.prems"] "2.IH"[OF refl "2.prems"(1)]
  show ?case by (simp add: Let_def)
qed


lemma collectTargets_known:
  "\<forall>t \<in> set ts. at_bool (nodes g) t \<Longrightarrow>
   collectTargets g ts required = Inr (walk (forward g) ts required)"
proof (induction ts arbitrary: required)
  case Nil
  then show ?case by simp
next
  case (Cons t ts)
  have "walk (forward g) (t # ts) required = walk (forward g) ts (walk (forward g) [t] required)"
    using walk_append[of "forward g" "[t]" ts required] by simp
  then show ?case using Cons by (simp add: collectDeps_def)
qed

lemma collectTargets_unknown:
  "\<exists>t \<in> set ts. \<not> at_bool (nodes g) t \<Longrightarrow>
   \<exists>t \<in> set ts. \<not> at_bool (nodes g) t \<and> collectTargets g ts required = Inl (UnknownProcess t)"
  by (induction ts arbitrary: required) auto

lemma at_int_fold_update:
  "at_int (fold (\<lambda>name m. AList.update name (f name) m) ks m0) x
   = (if x \<in> set ks then f x else at_int m0 x)"
  by (induction ks arbitrary: m0) (auto simp: at_int_update)

lemma keys_fold_update:
  "fst ` set (fold (\<lambda>name m. AList.update name (f name) m) ks m0) = set ks \<union> fst ` set m0"
  by (induction ks arbitrary: m0) (auto simp: dom_update)

lemma distinct_fold_update:
  "distinct (map fst m0) \<Longrightarrow> distinct (map fst (fold (\<lambda>name m. AList.update name (f name) m) ks m0))"
  by (induction ks arbitrary: m0) (auto simp: distinct_update)

lemma initial_queue:
  assumes perm: "mset (it2 m) = mset m" and d: "distinct (map fst m)"
  shows "distinct (map fst (filter (\<lambda>(name, deg). deg = 0) (it2 m)))"
    and "set (map fst (filter (\<lambda>(name, deg). deg = 0) (it2 m)))
         = {x \<in> fst ` set m. at_int m x = 0}"
proof -
  have "mset (map fst (it2 m)) = mset (map fst m)" using perm by (metis mset_map)
  then have d2: "distinct (map fst (it2 m))" using d by (metis mset_eq_imp_distinct_iff)
  then show "distinct (map fst (filter (\<lambda>(name, deg). deg = 0) (it2 m)))"
    by (rule distinct_map_filter)
  have s: "set (it2 m) = set m" using perm by (rule mset_eq_setD)
  have ms: "(x, v) \<in> set m \<longleftrightarrow> map_of m x = Some v" for x v
    using d by simp
  have L: "x \<in> set (map fst (filter (\<lambda>(name, deg). deg = 0) (it2 m))) \<longleftrightarrow> (x, 0) \<in> set m" for x
  proof
    assume "x \<in> set (map fst (filter (\<lambda>(name, deg). deg = 0) (it2 m)))"
    then obtain p where "p \<in> set (it2 m)" "snd p = 0" "fst p = x" by (auto simp: case_prod_beta)
    then show "(x, 0) \<in> set m" using s by (metis prod.collapse)
  next
    assume "(x, 0) \<in> set m"
    then have "(x, 0) \<in> set (filter (\<lambda>(name, deg). deg = 0) (it2 m))" using s by simp
    then show "x \<in> set (map fst (filter (\<lambda>(name, deg). deg = 0) (it2 m)))"
      by (metis fst_conv image_eqI set_map)
  qed
  have R: "x \<in> fst ` set m \<and> at_int m x = 0 \<longleftrightarrow> map_of m x = Some 0" for x
  proof -
    have "x \<in> fst ` set m \<longleftrightarrow> map_of m x \<noteq> None" by (simp add: map_of_eq_None_iff)
    then show ?thesis by (cases "map_of m x") (simp_all add: at_int_def)
  qed
  show "set (map fst (filter (\<lambda>(name, deg). deg = 0) (it2 m)))
         = {x \<in> fst ` set m. at_int m x = 0}"
    using L R ms by blast
qed

lemma kinv_initial:
  assumes perm1: "mset (it1 required) = mset required"
    and perm2: "\<And>m. mset (it2 m) = mset m"
    and closed: "\<forall>x \<in> set required. set (at_list (forward g) x) \<subseteq> set required"
  shows "kinv g required (initInDegree g required (it1 required))
           (map fst (filter (\<lambda>(name, deg). deg = 0) (it2 (initInDegree g required (it1 required))))) []"
proof -
  let ?m = "initInDegree g required (it1 required)"
  let ?q = "map fst (filter (\<lambda>(name, deg). deg = 0) (it2 ?m))"
  have s1: "set (it1 required) = set required" using perm1 by (rule mset_eq_setD)
  have keys: "fst ` set ?m = set required"
    by (simp add: initInDegree_def keys_fold_update s1)
  have dk: "distinct (map fst ?m)" by (simp add: initInDegree_def distinct_fold_update)
  have deg: "at_int ?m x = int (length (unmet g [] x))" if "x \<in> set required" for x
  proof -
    have "filter (\<lambda>dep. dep \<in> set required) (at_list (forward g) x) = at_list (forward g) x"
      using closed that by (auto simp: filter_id_conv)
    then show ?thesis using that
      by (simp add: initInDegree_def at_int_fold_update s1 countRequired_def unmet_def)
  qed
  have q: "distinct ?q" "set ?q = {x \<in> set required. at_int ?m x = 0}"
    using initial_queue[of it2 ?m, OF perm2 dk] keys by auto
  show ?thesis
    unfolding kinv_def using q deg by (auto simp: topo_def)
qed

lemma kahn_complete:
  assumes ac: "acyclic (edges (forward g))"
    and closed: "\<forall>x \<in> set required. set (at_list (forward g) x) \<subseteq> set required"
    and inv: "kinv g required m [] order"
  shows "set order = set required"
proof (rule ccontr)
  assume ne: "set order \<noteq> set required"
  from inv have sub: "set order \<subseteq> set required"
    and mem: "\<And>x. x \<in> set required \<Longrightarrow> x \<in> set order \<longleftrightarrow> unmet g order x = []"
    by (auto simp: kinv_def)
  let ?Q = "set required - set order"
  let ?r = "{(d, x). x \<in> set required \<and> d \<in> set (at_list (forward g) x)}"
  have "?r \<subseteq> (edges (forward g))\<inverse>" by (auto simp: edges_def)
  moreover have "acyclic ((edges (forward g))\<inverse>)" using ac by simp
  ultimately have acr: "acyclic ?r" by (rule acyclic_subset[rotated])
  have "?r \<subseteq> (\<Union>x \<in> set required. set (at_list (forward g) x)) \<times> set required" by auto
  then have "finite ?r" by (rule finite_subset) simp
  then have "wf ?r" using acr by (rule finite_acyclic_wf)
  moreover obtain q where "q \<in> ?Q" using ne sub by auto
  ultimately obtain z where z: "z \<in> ?Q" "\<And>y. (y, z) \<in> ?r \<Longrightarrow> y \<notin> ?Q"
    by (rule wfE_min) blast
  have zr: "z \<in> set required" "z \<notin> set order" using z(1) by auto
  have "d \<in> set order" if "d \<in> set (at_list (forward g) z)" for d
  proof -
    have "(d, z) \<in> ?r" using that zr by simp
    then have "d \<notin> ?Q" by (rule z(2))
    moreover have "d \<in> set required" using closed zr that by auto
    ultimately show ?thesis by simp
  qed
  then have "unmet g order z = []" by (auto simp: unmet_def filter_empty_conv)
  then show False using mem[OF zr(1)] zr(2) by simp
qed

lemma topo_index:
  assumes "topo g order" "i < length order" "d \<in> set (at_list (forward g) (order ! i))"
  shows "\<exists>j < i. order ! j = d"
proof -
  from assms have "d \<in> set (take i order)" by (auto simp: topo_def)
  then obtain j where "j < length (take i order)" "take i order ! j = d"
    by (auto simp: in_set_conv_nth)
  then show ?thesis by auto
qed

lemma acyclic_by_rank:
  assumes "\<And>x d. d \<in> set (at_list adj x) \<Longrightarrow> rank d < (rank x :: nat)"
  shows "acyclic (edges adj)"
proof -
  have "edges adj \<subseteq> (measure rank)\<inverse>" using assms by (auto simp: edges_def)
  moreover have "acyclic ((measure rank)\<inverse>)" by (simp add: wf_acyclic)
  ultimately show ?thesis by (rule acyclic_subset[rotated])
qed


lemma diamond_forward:
  "at_list (forward (NewDependencyGraph diamond)) x
   = (if x = ''D'' then [''B'', ''C''] else if x = ''B'' \<or> x = ''C'' then [''A''] else [])"
  by (simp add: graph_eval)

lemma diamond_acyclic: "acyclic (edges (forward (NewDependencyGraph diamond)))"
proof (rule acyclic_by_rank[where rank = diamond_rank])
  fix x d assume "d \<in> set (at_list (forward (NewDependencyGraph diamond)) x)"
  then show "diamond_rank d < diamond_rank x"
    unfolding diamond_forward by (auto simp: diamond_rank_def split: if_splits)
qed

text \<open>
  Claim C3. For the graph built from a catalog, whatever the order in which the maps are
  iterated: when the graph is acyclic and every target is a name of the graph,
  \<open>start_order\<close> returns a list without repetition of exactly the closure of the targets
  under the forward edges, in which every process comes after each of its dependencies;
  and when some target is unknown, \<open>start_order\<close> fails with the error for an unknown
  process.
\<close>

theorem StartOrder_topological:
  assumes names: "distinct (map fst (Processes cfg))"
    and perm1: "\<And>xs. mset (it1 xs) = mset xs"
    and perm2: "\<And>m. mset (it2 m) = mset m"
  shows "(acyclic (edges (forward (NewDependencyGraph cfg)))
          \<and> (\<forall>t \<in> set targets. known (NewDependencyGraph cfg) t) \<longrightarrow>
          (\<exists>order. StartOrder it1 it2 (NewDependencyGraph cfg) targets = Inr order
             \<and> distinct order
             \<and> set order = forward_closure (NewDependencyGraph cfg) targets
             \<and> (\<forall>i < length order.
                  \<forall>d \<in> set (at_list (forward (NewDependencyGraph cfg)) (order ! i)).
                    \<exists>j < i. order ! j = d)))
       \<and> ((\<exists>t \<in> set targets. \<not> known (NewDependencyGraph cfg) t) \<longrightarrow>
          (\<exists>t \<in> set targets. \<not> known (NewDependencyGraph cfg) t
             \<and> StartOrder it1 it2 (NewDependencyGraph cfg) targets = Inl (UnknownProcess t)))"
proof (intro conjI impI)
  let ?g = "NewDependencyGraph cfg"
  assume "acyclic (edges (forward ?g)) \<and> (\<forall>t \<in> set targets. known ?g t)"
  then have ac: "acyclic (edges (forward ?g))" and kn: "\<forall>t \<in> set targets. at_bool (nodes ?g) t"
    by (simp_all add: known_def)
  define required where "required = walk (forward ?g) targets []"
  have ct: "collectTargets ?g targets [] = Inr required"
    unfolding required_def using kn by (rule collectTargets_known)
  have rset: "set required = forward_closure ?g targets"
    by (auto simp: required_def walk_reach forward_closure_def)
  have rdist: "distinct required" by (simp add: required_def walk_distinct)
  have closed: "\<forall>x \<in> set required. set (at_list (forward ?g) x) \<subseteq> set required"
    unfolding required_def by (rule walk_closed) simp
  define inDegree where "inDegree = initInDegree ?g required (it1 required)"
  define queue where "queue = map fst (filter (\<lambda>(name, deg). deg = 0) (it2 inDegree))"
  define order where "order = kahn ?g required inDegree queue []"
  have "kinv ?g required inDegree queue []"
    unfolding inDegree_def queue_def using perm1 perm2 closed by (rule kinv_initial)
  from kahn_inv[OF consistent_New[OF names] this]
  obtain m where inv: "kinv ?g required m [] order" unfolding order_def by blast
  have oset: "set order = set required" using ac closed inv by (rule kahn_complete)
  have odist: "distinct order" using inv by (simp add: kinv_def)
  have "length order = length required"
    using oset odist rdist by (metis distinct_card)
  then have so: "StartOrder it1 it2 ?g targets = Inr order"
    by (simp add: StartOrder_def ct Let_def inDegree_def[symmetric] queue_def[symmetric]
        order_def[symmetric])
  have tp: "topo ?g order" using inv by (simp add: kinv_def)
  show "\<exists>order. StartOrder it1 it2 ?g targets = Inr order \<and> distinct order
          \<and> set order = forward_closure ?g targets
          \<and> (\<forall>i < length order. \<forall>d \<in> set (at_list (forward ?g) (order ! i)). \<exists>j < i. order ! j = d)"
    using so odist oset rset topo_index[OF tp] by blast
next
  let ?g = "NewDependencyGraph cfg"
  assume "\<exists>t \<in> set targets. \<not> known ?g t"
  then have "\<exists>t \<in> set targets. \<not> at_bool (nodes ?g) t" by (simp add: known_def)
  from collectTargets_unknown[OF this, of "[]"]
  show "\<exists>t \<in> set targets. \<not> known ?g t \<and> StartOrder it1 it2 ?g targets = Inl (UnknownProcess t)"
    by (auto simp: StartOrder_def known_def)
qed

theorem StartOrder_topological_witness:
  "distinct (map fst (Processes diamond))
   \<and> acyclic (edges (forward (NewDependencyGraph diamond)))
   \<and> known (NewDependencyGraph diamond) ''D''
   \<and> \<not> known (NewDependencyGraph diamond) ''nonexistent''
   \<and> (\<exists>order. StartOrder (\<lambda>xs. xs) rev (NewDependencyGraph diamond) [''D''] = Inr order
         \<and> distinct order \<and> set order = forward_closure (NewDependencyGraph diamond) [''D'']
         \<and> (\<forall>i < length order.
               \<forall>d \<in> set (at_list (forward (NewDependencyGraph diamond)) (order ! i)).
                 \<exists>j < i. order ! j = d))
   \<and> StartOrder (\<lambda>xs. xs) rev (NewDependencyGraph diamond) [''D'', ''nonexistent'']
       = Inl (UnknownProcess ''nonexistent'')"
proof -
  have d: "distinct (map fst (Processes diamond))" by (simp add: diamond_def)
  have k: "known (NewDependencyGraph diamond) ''D''" "\<not> known (NewDependencyGraph diamond) ''nonexistent''"
    by (simp_all add: known_def graph_eval)
  have p1: "\<And>xs :: string list. mset ((\<lambda>xs. xs) xs) = mset xs" by simp
  have p2: "\<And>m :: (string \<times> int) list. mset (rev m) = mset m" by simp
  note T = StartOrder_topological[of diamond "\<lambda>xs. xs" rev, OF d p1 p2]
  from T[of "[''D'']"] diamond_acyclic k
  have 1: "\<exists>order. StartOrder (\<lambda>xs. xs) rev (NewDependencyGraph diamond) [''D''] = Inr order
         \<and> distinct order \<and> set order = forward_closure (NewDependencyGraph diamond) [''D'']
         \<and> (\<forall>i < length order.
               \<forall>d \<in> set (at_list (forward (NewDependencyGraph diamond)) (order ! i)).
                 \<exists>j < i. order ! j = d)" by simp
  from T[of "[''D'', ''nonexistent'']"] k
  have 2: "StartOrder (\<lambda>xs. xs) rev (NewDependencyGraph diamond) [''D'', ''nonexistent'']
       = Inl (UnknownProcess ''nonexistent'')" by auto
  show ?thesis using d diamond_acyclic k 1 2 by blast
qed

section \<open>Correctness of the stop order\<close>

lemma reverseInPlace_length [simp]: "length (reverseInPlace i j xs) = length xs"
  by (induction i j xs rule: reverseInPlace.induct) (subst reverseInPlace.simps, simp)

lemma reverseInPlace_nth:
  "0 \<le> i \<Longrightarrow> j < int (length xs) \<Longrightarrow> k < length xs \<Longrightarrow>
   reverseInPlace i j xs ! k
   = (if i \<le> int k \<and> int k \<le> j then xs ! nat (i + j - int k) else xs ! k)"
proof (induction i j xs rule: reverseInPlace.induct)
  case (1 i j xs)
  show ?case
  proof (cases "i < j")
    case False
    have "nat (i + j - int k) = k" if "i \<le> int k" "int k \<le> j" using that False by linarith
    then show ?thesis using False by (subst reverseInPlace.simps) auto
  next
    case True
    let ?xs' = "xs[nat i := xs ! nat j, nat j := xs ! nat i]"
    have ij: "nat i < length xs" "nat j < length xs" "nat i \<noteq> nat j"
      using True "1.prems" by linarith+
    have IH: "reverseInPlace (i + 1) (j - 1) ?xs' ! k
        = (if i + 1 \<le> int k \<and> int k \<le> j - 1 then ?xs' ! nat (i + 1 + (j - 1) - int k) else ?xs' ! k)"
      using "1.IH"[OF True] "1.prems" by simp
    have unf: "reverseInPlace i j xs = reverseInPlace (i + 1) (j - 1) ?xs'"
      using True by (subst reverseInPlace.simps) simp
    consider "int k = i" | "int k = j" | "i < int k" "int k < j" | "int k < i" | "j < int k"
      by linarith
    then show ?thesis
    proof cases
      case 1
      then have k: "k = nat i" by simp
      have "?xs' ! k = xs ! nat j" using ij by (simp add: k)
      moreover have "nat (i + j - int k) = nat j" using 1 by simp
      ultimately show ?thesis using 1 True unfolding unf IH by simp
    next
      case 2
      then have k: "k = nat j" by simp
      have "?xs' ! k = xs ! nat i" using ij by (simp add: k)
      moreover have "nat (i + j - int k) = nat i" using 2 by simp
      ultimately show ?thesis using 2 True unfolding unf IH by simp
    next
      case 3
      let ?m = "nat (i + j - int k)"
      have "?m \<noteq> nat i" "?m \<noteq> nat j" "?m < length xs" using 3 "1.prems" by linarith+
      then have "?xs' ! ?m = xs ! ?m" by simp
      moreover have "i + 1 + (j - 1) - int k = i + j - int k" by simp
      ultimately show ?thesis using 3 unfolding unf IH by simp
    next
      case 4
      then have "k \<noteq> nat i" "k \<noteq> nat j" using True "1.prems" by linarith+
      then have "?xs' ! k = xs ! k" by simp
      then show ?thesis using 4 unfolding unf IH by simp
    next
      case 5
      then have "k \<noteq> nat i" "k \<noteq> nat j" using True "1.prems" by linarith+
      then have "?xs' ! k = xs ! k" by simp
      then show ?thesis using 5 unfolding unf IH by simp
    qed
  qed
qed

lemma reverseInPlace_rev: "reverseInPlace 0 (int (length xs) - 1) xs = rev xs"
proof (rule nth_equalityI)
  show "length (reverseInPlace 0 (int (length xs) - 1) xs) = length (rev xs)" by simp
next
  fix k assume "k < length (reverseInPlace 0 (int (length xs) - 1) xs)"
  then have k: "k < length xs" by simp
  have "nat (0 + (int (length xs) - 1) - int k) = length xs - Suc k" using k by linarith
  then show "reverseInPlace 0 (int (length xs) - 1) xs ! k = rev xs ! k"
    using k by (simp add: reverseInPlace_nth rev_nth)
qed

text \<open>
  Two runs of Kahn's loop on the same graph and the same required names end with the same
  set of names, whatever the order in which each of them has met the maps.
\<close>

lemma collectTargets_Inr:
  assumes "collectTargets g ts required = Inr r"
  shows "r = walk (forward g) ts required"
proof -
  have "\<forall>t \<in> set ts. at_bool (nodes g) t"
  proof (rule ccontr)
    assume "\<not> (\<forall>t \<in> set ts. at_bool (nodes g) t)"
    then have "\<exists>t \<in> set ts. \<not> at_bool (nodes g) t" by blast
    from collectTargets_unknown[OF this, of required] assms show False by auto
  qed
  from collectTargets_known[OF this, of required] assms show ?thesis by simp
qed

lemma kahn_set_le:
  assumes a: "kinv g required m [] order" and b: "kinv g required m' [] order'"
  shows "set order \<subseteq> set order'"
proof -
  from a have sub: "set order \<subseteq> set required" and tp: "topo g order" by (simp_all add: kinv_def)
  from b have mem: "\<And>x. x \<in> set required \<Longrightarrow> x \<in> set order' \<longleftrightarrow> unmet g order' x = []"
    by (simp add: kinv_def)
  have "i < length order \<Longrightarrow> order ! i \<in> set order'" for i
  proof (induction i rule: less_induct)
    case (less i)
    have "set (at_list (forward g) (order ! i)) \<subseteq> set (take i order)"
      using tp less.prems by (simp add: topo_def)
    moreover have "set (take i order) \<subseteq> set order'"
    proof
      fix x assume "x \<in> set (take i order)"
      then obtain j where "j < length (take i order)" "take i order ! j = x"
        by (auto simp: in_set_conv_nth)
      then have "j < i" "j < length order" "order ! j = x" using less.prems by auto
      then show "x \<in> set order'" using less.IH by blast
    qed
    ultimately have "unmet g order' (order ! i) = []"
      by (auto simp: unmet_def filter_empty_conv)
    moreover have "order ! i \<in> set required" using sub less.prems by auto
    ultimately show ?case using mem by blast
  qed
  then show ?thesis by (auto simp: in_set_conv_nth)
qed

lemma StartOrder_Inr:
  assumes names: "distinct (map fst (Processes cfg))"
    and perm1: "\<And>xs. mset (it1 xs) = mset xs"
    and perm2: "\<And>m. mset (it2 m) = mset m"
    and so: "StartOrder it1 it2 (NewDependencyGraph cfg) targets = Inr order"
  shows "\<exists>required m. collectTargets (NewDependencyGraph cfg) targets [] = Inr required
           \<and> distinct required
           \<and> (\<forall>x \<in> set required. set (at_list (forward (NewDependencyGraph cfg)) x) \<subseteq> set required)
           \<and> kinv (NewDependencyGraph cfg) required m [] order
           \<and> length order = length required"
proof -
  let ?g = "NewDependencyGraph cfg"
  from so obtain required where ct: "collectTargets ?g targets [] = Inr required"
    by (auto simp: StartOrder_def split: sum.splits)
  have req: "required = walk (forward ?g) targets []" using collectTargets_Inr[OF ct] .
  have rdist: "distinct required" by (simp add: req walk_distinct)
  have closed: "\<forall>x \<in> set required. set (at_list (forward ?g) x) \<subseteq> set required"
    unfolding req by (rule walk_closed) simp
  define inDegree where "inDegree = initInDegree ?g required (it1 required)"
  define queue where "queue = map fst (filter (\<lambda>(name, deg). deg = 0) (it2 inDegree))"
  have "kinv ?g required inDegree queue []"
    unfolding inDegree_def queue_def using perm1 perm2 closed by (rule kinv_initial)
  from kahn_inv[OF consistent_New[OF names] this]
  obtain m where inv: "kinv ?g required m [] (kahn ?g required inDegree queue [])" by blast
  from so have o: "order = kahn ?g required inDegree queue []"
     and len: "length order = length required"
    by (auto simp: StartOrder_def ct Let_def inDegree_def[symmetric] queue_def[symmetric]
        split: if_splits)
  show ?thesis using ct rdist closed inv len unfolding o[symmetric] by blast
qed

lemma StartOrder_other_iteration:
  assumes names: "distinct (map fst (Processes cfg))"
    and perm1: "\<And>xs. mset (it1 xs) = mset xs"
    and perm2: "\<And>m. mset (it2 m) = mset m"
    and perm1': "\<And>xs. mset (it1' xs) = mset xs"
    and perm2': "\<And>m. mset (it2' m) = mset m"
    and so: "StartOrder it1 it2 (NewDependencyGraph cfg) targets = Inr order"
  shows "\<exists>order'. StartOrder it1' it2' (NewDependencyGraph cfg) targets = Inr order'
           \<and> distinct order' \<and> set order' = set order \<and> topo (NewDependencyGraph cfg) order'"
proof -
  let ?g = "NewDependencyGraph cfg"
  from StartOrder_Inr[OF names perm1 perm2 so]
  obtain required m where ct: "collectTargets ?g targets [] = Inr required"
    and rdist: "distinct required"
    and closed: "\<forall>x \<in> set required. set (at_list (forward ?g) x) \<subseteq> set required"
    and inv: "kinv ?g required m [] order" and len: "length order = length required"
    by blast
  define inDegree where "inDegree = initInDegree ?g required (it1' required)"
  define queue where "queue = map fst (filter (\<lambda>(name, deg). deg = 0) (it2' inDegree))"
  define order' where "order' = kahn ?g required inDegree queue []"
  have "kinv ?g required inDegree queue []"
    unfolding inDegree_def queue_def using perm1' perm2' closed by (rule kinv_initial)
  from kahn_inv[OF consistent_New[OF names] this]
  obtain m' where inv': "kinv ?g required m' [] order'" unfolding order'_def by blast
  have eq: "set order' = set order"
    using kahn_set_le[OF inv inv'] kahn_set_le[OF inv' inv] by blast
  have d: "distinct order" "distinct order'" using inv inv' by (simp_all add: kinv_def)
  have "length order' = length order" using eq d by (metis distinct_card)
  then have "StartOrder it1' it2' ?g targets = Inr order'"
    using len
    by (simp add: StartOrder_def ct Let_def inDegree_def[symmetric] queue_def[symmetric]
        order'_def[symmetric])
  moreover have "topo ?g order'" using inv' by (simp add: kinv_def)
  ultimately show ?thesis using d eq by blast
qed

lemma topo_rev:
  assumes tp: "topo g order" and i: "i < length order"
    and d: "d \<in> set (at_list (forward g) (rev order ! i))"
  shows "\<exists>j. i < j \<and> j < length order \<and> rev order ! j = d"
proof -
  let ?n = "length order"
  have ri: "rev order ! i = order ! (?n - Suc i)" using i by (simp add: rev_nth)
  have "?n - Suc i < ?n" using i by simp
  from topo_index[OF tp this] d ri
  obtain k where k: "k < ?n - Suc i" "order ! k = d" by auto
  let ?j = "?n - Suc k"
  have "i < ?j" "?j < ?n" using k i by linarith+
  moreover have "rev order ! ?j = order ! k" using k i by (simp add: rev_nth)
  ultimately show ?thesis using k by blast
qed

lemma fork_start_order:
  "StartOrder id id (NewDependencyGraph fork) [''D''] = Inr [''B'', ''C'', ''D'']"
  by (simp add: StartOrder_def collectDeps_def initInDegree_def countRequired_def relax_def graph_eval)

lemma fork_stop_order:
  "StopOrder id rev (NewDependencyGraph fork) [''D''] = Inr [''D'', ''B'', ''C'']"
proof -
  have s: "StartOrder id rev (NewDependencyGraph fork) [''D''] = Inr [''C'', ''B'', ''D'']"
    by (simp add: StartOrder_def collectDeps_def initInDegree_def countRequired_def relax_def
        graph_eval)
  have "reverseInPlace 0 (int (length [''C'', ''B'', ''D'']) - 1) [''C'', ''B'', ''D'']
        = rev [''C'', ''B'', ''D'']"
    by (rule reverseInPlace_rev)
  then show ?thesis by (simp add: StopOrder_def s)
qed

text \<open>
  Claim C7 says that \<open>stop_order\<close> returns exactly the reverse of the list that \<open>start_order\<close>
  returns. \<open>stop_order\<close> makes a call of \<open>start_order\<close> of its own, which ranges over the
  maps anew, and Go fixes no order for that. On the process D with the dependencies B and
  C, \<open>start_order\<close> returns B, C, D when it meets B first, and \<open>stop_order\<close> returns D, B, C
  when its call meets C first.
\<close>

theorem StopOrder_reverse_counterexample:
  "StartOrder id id (NewDependencyGraph fork) [''D''] = Inr [''B'', ''C'', ''D'']
   \<and> StopOrder id rev (NewDependencyGraph fork) [''D''] = Inr [''D'', ''B'', ''C'']
   \<and> [''D'', ''B'', ''C''] \<noteq> rev [''B'', ''C'', ''D'']"
  using fork_start_order fork_stop_order by simp

text \<open>
  Claim C7, amended. \<open>stop_order\<close> returns the reverse of the list that the call of
  \<open>start_order\<close> inside it computes: for one and the same order of iteration over the maps,
  whenever \<open>start_order\<close> succeeds, \<open>stop_order\<close> succeeds and returns exactly the reverse.
  For the graph built from a catalog and two orders of iteration, one for each call:
  whenever \<open>start_order\<close> succeeds, \<open>stop_order\<close> succeeds too and returns a list without
  repetition of the same processes, as long as the list of \<open>start_order\<close>, in which every
  process comes before each of its dependencies.
\<close>

theorem StopOrder_reverse:
  "(StartOrder it1 it2 g targets = Inr order \<longrightarrow> StopOrder it1 it2 g targets = Inr (rev order))
   \<and> (distinct (map fst (Processes cfg))
      \<and> (\<forall>xs. mset (it1 xs) = mset xs) \<and> (\<forall>m. mset (it2 m) = mset m)
      \<and> (\<forall>xs. mset (it1' xs) = mset xs) \<and> (\<forall>m. mset (it2' m) = mset m)
      \<and> StartOrder it1 it2 (NewDependencyGraph cfg) targets = Inr order \<longrightarrow>
      (\<exists>stop. StopOrder it1' it2' (NewDependencyGraph cfg) targets = Inr stop
         \<and> distinct stop \<and> set stop = set order \<and> length stop = length order
         \<and> (\<forall>i < length stop.
              \<forall>d \<in> set (at_list (forward (NewDependencyGraph cfg)) (stop ! i)).
                \<exists>j. i < j \<and> j < length stop \<and> stop ! j = d)))"
proof (intro conjI impI)
  assume "StartOrder it1 it2 g targets = Inr order"
  then show "StopOrder it1 it2 g targets = Inr (rev order)"
    by (simp add: StopOrder_def reverseInPlace_rev)
next
  let ?g = "NewDependencyGraph cfg"
  assume h: "distinct (map fst (Processes cfg))
      \<and> (\<forall>xs. mset (it1 xs) = mset xs) \<and> (\<forall>m. mset (it2 m) = mset m)
      \<and> (\<forall>xs. mset (it1' xs) = mset xs) \<and> (\<forall>m. mset (it2' m) = mset m)
      \<and> StartOrder it1 it2 ?g targets = Inr order"
  then have names: "distinct (map fst (Processes cfg))"
    and p: "\<And>xs. mset (it1 xs) = mset xs" "\<And>m. mset (it2 m) = mset m"
      "\<And>xs. mset (it1' xs) = mset xs" "\<And>m. mset (it2' m) = mset m"
    and so: "StartOrder it1 it2 ?g targets = Inr order"
    by blast+
  from StartOrder_other_iteration[OF names p so]
  obtain order' where so': "StartOrder it1' it2' ?g targets = Inr order'"
    and d: "distinct order'" and eq: "set order' = set order" and tp: "topo ?g order'"
    by blast
  from StartOrder_other_iteration[OF names p(1,2) p(1,2) so] so
  have d0: "distinct order" by auto
  have st: "StopOrder it1' it2' ?g targets = Inr (rev order')"
    using so' by (simp add: StopOrder_def reverseInPlace_rev)
  have len: "length (rev order') = length order" using d d0 eq by (metis distinct_card length_rev)
  have "\<forall>i < length (rev order'). \<forall>d \<in> set (at_list (forward ?g) (rev order' ! i)).
          \<exists>j. i < j \<and> j < length (rev order') \<and> rev order' ! j = d"
    using topo_rev[OF tp] by simp
  then show "\<exists>stop. StopOrder it1' it2' ?g targets = Inr stop
         \<and> distinct stop \<and> set stop = set order \<and> length stop = length order
         \<and> (\<forall>i < length stop. \<forall>d \<in> set (at_list (forward ?g) (stop ! i)).
                \<exists>j. i < j \<and> j < length stop \<and> stop ! j = d)"
    using st d eq len by (intro exI[of _ "rev order'"]) simp
qed

theorem StopOrder_reverse_witness:
  "StartOrder id id (NewDependencyGraph fork) [''D''] = Inr [''B'', ''C'', ''D'']
   \<and> StopOrder id id (NewDependencyGraph fork) [''D''] = Inr [''D'', ''C'', ''B'']
   \<and> distinct (map fst (Processes fork))
   \<and> (\<forall>xs :: string list. mset (id xs) = mset xs) \<and> (\<forall>m :: (string \<times> int) list. mset (id m) = mset m)
   \<and> (\<forall>m :: (string \<times> int) list. mset (rev m) = mset m)
   \<and> (\<exists>stop. StopOrder id rev (NewDependencyGraph fork) [''D''] = Inr stop
         \<and> distinct stop \<and> set stop = {''B'', ''C'', ''D''} \<and> length stop = 3
         \<and> (\<forall>i < length stop.
              \<forall>d \<in> set (at_list (forward (NewDependencyGraph fork)) (stop ! i)).
                \<exists>j. i < j \<and> j < length stop \<and> stop ! j = d))"
proof -
  note T = StopOrder_reverse[of id id _ "[''D'']" "[''B'', ''C'', ''D'']" fork id rev]
  have s: "StartOrder id id (NewDependencyGraph fork) [''D''] = Inr [''B'', ''C'', ''D'']"
    by (rule fork_start_order)
  have 1: "StopOrder id id (NewDependencyGraph fork) [''D''] = Inr [''D'', ''C'', ''B'']"
    using T[of "NewDependencyGraph fork"] s by simp
  have n: "distinct (map fst (Processes fork))" by (simp add: fork_def)
  have p: "\<forall>xs :: string list. mset (id xs) = mset xs" "\<forall>m :: (string \<times> int) list. mset (id m) = mset m"
    "\<forall>m :: (string \<times> int) list. mset (rev m) = mset m" by simp_all
  have 2: "\<exists>stop. StopOrder id rev (NewDependencyGraph fork) [''D''] = Inr stop
         \<and> distinct stop \<and> set stop = set [''B'', ''C'', ''D''] \<and> length stop = length [''B'', ''C'', ''D'']
         \<and> (\<forall>i < length stop.
              \<forall>d \<in> set (at_list (forward (NewDependencyGraph fork)) (stop ! i)).
                \<exists>j. i < j \<and> j < length stop \<and> stop ! j = d)"
    using T[of "NewDependencyGraph fork"] s n p by blast
  have "set [''B'', ''C'', ''D''] = {''B'', ''C'', ''D''}" "length [''B'', ''C'', ''D''] = 3" by simp_all
  with 2 have 3: "\<exists>stop. StopOrder id rev (NewDependencyGraph fork) [''D''] = Inr stop
         \<and> distinct stop \<and> set stop = {''B'', ''C'', ''D''} \<and> length stop = 3
         \<and> (\<forall>i < length stop.
              \<forall>d \<in> set (at_list (forward (NewDependencyGraph fork)) (stop ! i)).
                \<exists>j. i < j \<and> j < length stop \<and> stop ! j = d)" by metis
  show ?thesis using s 1 n p 3 by blast
qed

section \<open>Restart and stop of a process\<close>

lemmas manager_eval = StopProcess_def RestartProcess_def stopSingle_def startSingle_def
  put_process_def emitEvent_def Start_def Stop_def waitForExit_def SetStatus_def SetRetryState_def
  ResetRetryCount_def NewManagedProcess_def Dependents_def calm_def running_def

text \<open>
  Claim C1 says that after a restart that completes the retry count of the target is 0.
  In the code, for a process that is retrying with a retry count of 2 and has no
  dependents, \<open>RestartProcess\<close> completes without an error and leaves the process running
  with its retry count still 2: \<open>ResetRetryCount\<close> is called on the restarted dependents
  only, and \<open>Start\<close> keeps the count.
\<close>

theorem RestartProcess_keeps_retry_count:
  "map_option (\<lambda>r. (fst r, map_option (\<lambda>p. (Status (mp_state p), RetryCount (mp_state p)))
                              (fmlookup (processes (snd r)) ''A'')))
     (RestartProcess calm ''A'' single_retrying)
   = Some (None, Some (StatusRunning, 2))"
  by (simp add: single_retrying_def retrying_twice_def manager_eval graph_eval)

text \<open>
  Claim C2 says that the dependents are stopped in reverse topological order, \<open>C\<close> then
  \<open>B\<close> then \<open>A\<close> in the linear chain. In the code, with the three processes of the chain
  running, \<open>StopProcess\<close> of \<open>A\<close> stops \<open>B\<close>, then \<open>C\<close>, then \<open>A\<close>: it stops the dependents
  in the order in which \<open>Dependents\<close> discovers them, and \<open>B\<close>, on which \<open>C\<close> depends, comes
  first.
\<close>

theorem StopProcess_chain_order:
  "Dependents (graph chain_running) ''A'' = [''B'', ''C'']
   \<and> map_option (\<lambda>r. (fst r, map ev_Name (events (snd r)), map ev_NewState (events (snd r))))
       (StopProcess calm ''A'' chain_running)
     = Some (None, [''B'', ''C'', ''A''], [StatusStopped, StatusStopped, StatusStopped])"
  by (simp add: chain_running_def manager_eval graph_eval)

end
